theory Spec2Isabelle
  imports Main "HOL-Library.Sublist"
begin

section \<open>Python values the script handles\<close>

text \<open>
  The script \<^verbatim>\<open>github_releases.py\<close> is modelled function by function. Exceptions are
  values: a computation that can raise returns \<open>exn + 'a\<close>, with \<open>Inl\<close> the exception.
  \<open>SystemExit\<close> is what \<^verbatim>\<open>sys.exit\<close> raises; it is the only exception of the model that
  is not an instance of Python's \<^verbatim>\<open>Exception\<close>, so \<^verbatim>\<open>except Exception\<close> lets it through.
  Strings are lists of 8-bit characters (code points below 256).
\<close>

datatype exn =
    KeyError | TypeError | AttributeError | ValueError
  | InvalidVersion | RequestException | OSError | SystemExit nat

fun is_Exception :: "exn \<Rightarrow> bool" where
  "is_Exception (SystemExit _) = False"
| "is_Exception _ = True"

text \<open>A decoded JSON value. A JSON object keeps its members in document order.\<close>

datatype jval =
    JNull | JBool bool | JNum int | JStr string
  | JArr "jval list" | JObj "(string \<times> jval) list"

text \<open>
  \<^verbatim>\<open>value[key]\<close> with a string key: on a dict the last member of that name wins (as the
  JSON decoder builds the dict) and a missing key raises \<^verbatim>\<open>KeyError\<close>; every other
  JSON value raises \<^verbatim>\<open>TypeError\<close>.
\<close>

fun subscript :: "jval \<Rightarrow> string \<Rightarrow> exn + jval" where
  "subscript (JObj kvs) key =
     (case map_of (rev kvs) key of None \<Rightarrow> Inl KeyError | Some v \<Rightarrow> Inr v)"
| "subscript _ key = Inl TypeError"

subsection \<open>String helpers\<close>

definition startswith :: "string \<Rightarrow> string \<Rightarrow> bool" where
  "startswith s p = (take (length p) s = p)"

primrec split_on :: "char \<Rightarrow> string \<Rightarrow> string list" where
  "split_on sep [] = [[]]"
| "split_on sep (x # xs) =
     (if x = sep then [] # split_on sep xs
      else (case split_on sep xs of [] \<Rightarrow> [[x]] | w # ws \<Rightarrow> (x # w) # ws))"

definition strip_char :: "char \<Rightarrow> string \<Rightarrow> string" where
  "strip_char ch s = rev (dropWhile (\<lambda>x. x = ch) (rev (dropWhile (\<lambda>x. x = ch) s)))"

definition ascii_lowercase :: string where
  "ascii_lowercase = ''abcdefghijklmnopqrstuvwxyz''"

definition ascii_uppercase :: string where
  "ascii_uppercase = ''ABCDEFGHIJKLMNOPQRSTUVWXYZ''"

definition digits :: string where
  "digits = ''0123456789''"

definition lower_char :: "char \<Rightarrow> char" where
  "lower_char ch = (case map_of (zip ascii_uppercase ascii_lowercase) ch of
                      None \<Rightarrow> ch | Some l \<Rightarrow> l)"

definition upper_char :: "char \<Rightarrow> char" where
  "upper_char ch = (case map_of (zip ascii_lowercase ascii_uppercase) ch of
                      None \<Rightarrow> ch | Some u \<Rightarrow> u)"

definition lower :: "string \<Rightarrow> string" where
  "lower s = map lower_char s"

definition isdigit :: "string \<Rightarrow> bool" where
  "isdigit s = (s \<noteq> [] \<and> list_all (\<lambda>ch. ch \<in> set digits) s)"

text \<open>
  \<^verbatim>\<open>int(s)\<close> on the strings the script converts: decimal digits, possibly after blanks
  (the day field of \<^verbatim>\<open>strptime\<close> may be a blank and a digit). Python integers are
  unbounded; the interpreter's optional limit on the length of a converted string is
  not modelled.
\<close>

definition digit_val :: "char \<Rightarrow> nat" where
  "digit_val ch = of_char ch - of_char CHR ''0''"

definition py_int :: "string \<Rightarrow> nat" where
  "py_int s = foldl (\<lambda>a ch. 10 * a + digit_val ch) 0 (dropWhile (\<lambda>ch. ch = CHR '' '') s)"

text \<open>\<^verbatim>\<open>str(n)\<close> for a non-negative integer, and the zero-padded \<^verbatim>\<open>%0wd\<close>.\<close>

definition digit_char :: "nat \<Rightarrow> char" where
  "digit_char d = char_of (of_char CHR ''0'' + d)"

fun py_str :: "nat \<Rightarrow> string" where
  "py_str n = (if n < 10 then [digit_char n] else py_str (n div 10) @ [digit_char (n mod 10)])"

declare py_str.simps [simp del]

definition zero_pad :: "nat \<Rightarrow> nat \<Rightarrow> string" where
  "zero_pad w n = replicate (w - length (py_str n)) CHR ''0'' @ py_str n"

section \<open>Regular expressions, as Python's backtracking matcher reads them\<close>

text \<open>
  Both libraries the script parses with (\<^verbatim>\<open>packaging.version\<close> and \<^verbatim>\<open>_strptime\<close>) are
  driven by a regular expression with named groups. \<open>rmatch r s c\<close> lists every way of
  matching \<open>r\<close> at the front of \<open>s\<close>, each as the rest of the string and the groups
  captured so far (the latest first), in the order in which \<^verbatim>\<open>re\<close> tries them:
  alternatives as written, repetitions greedy. What \<^verbatim>\<open>re\<close> returns is the first entry
  that lets the rest of the pattern succeed. A character class lists its characters, so
  a case-insensitive letter is the class of both its cases.
\<close>

datatype rexp =
    Eps
  | Cls "char list"
  | Seq rexp rexp
  | Alt rexp rexp
  | Star rexp
  | Grp string rexp

type_synonym caps = "(string \<times> string) list"

type_synonym mstate = "string \<times> caps"

primrec bind :: "(string \<Rightarrow> caps \<Rightarrow> mstate list) \<Rightarrow> mstate list \<Rightarrow> mstate list" where
  "bind g [] = []"
| "bind g (x # xs) = g (fst x) (snd x) @ bind g xs"

text \<open>An iteration of a repetition that used up nothing is not repeated.\<close>

definition shorter ::
  "nat \<Rightarrow> (string \<Rightarrow> caps \<Rightarrow> mstate list) \<Rightarrow> string \<Rightarrow> caps \<Rightarrow> mstate list" where
  "shorter n g s c = (if length s < n then g s c else [])"

primrec star_loop ::
  "(string \<Rightarrow> caps \<Rightarrow> mstate list) \<Rightarrow> nat \<Rightarrow> string \<Rightarrow> caps \<Rightarrow> mstate list" where
  "star_loop f 0 s c = [(s, c)]"
| "star_loop f (Suc n) s c = bind (shorter (length s) (star_loop f n)) (f s c) @ [(s, c)]"

definition capture :: "string \<Rightarrow> string \<Rightarrow> mstate \<Rightarrow> mstate" where
  "capture name s x = (fst x, (name, take (length s - length (fst x)) s) # snd x)"

primrec rmatch :: "rexp \<Rightarrow> string \<Rightarrow> caps \<Rightarrow> mstate list" where
  "rmatch Eps s c = [(s, c)]"
| "rmatch (Cls cs) s c =
     (case s of [] \<Rightarrow> [] | x # xs \<Rightarrow> if x \<in> set cs then [(xs, c)] else [])"
| "rmatch (Seq a b) s c = bind (rmatch b) (rmatch a s c)"
| "rmatch (Alt a b) s c = rmatch a s c @ rmatch b s c"
| "rmatch (Star a) s c = star_loop (rmatch a) (length s) s c"
| "rmatch (Grp name a) s c = map (capture name s) (rmatch a s c)"

definition Opt :: "rexp \<Rightarrow> rexp" where
  "Opt r = Alt r Eps"

definition Plus :: "rexp \<Rightarrow> rexp" where
  "Plus r = Seq r (Star r)"

definition seqs :: "rexp list \<Rightarrow> rexp" where
  "seqs rs = foldr Seq rs Eps"

definition alts :: "rexp list \<Rightarrow> rexp" where
  "alts rs = foldr Alt rs (Cls [])"

text \<open>A literal word, matched without regard to the case of its letters.\<close>

definition lit_i :: "string \<Rightarrow> rexp" where
  "lit_i w = seqs (map (\<lambda>ch. Cls (remdups [ch, lower_char ch, upper_char ch])) w)"

definition group :: "caps \<Rightarrow> string \<Rightarrow> string option" where
  "group c name = map_of c name"

text \<open>
  \<^verbatim>\<open>re.match\<close>: the first way of matching the pattern at the front of the string.
  \<^verbatim>\<open>regex_search\<close> is for a pattern anchored at both ends, where a match has to use up
  the string.
\<close>

definition regex_match :: "rexp \<Rightarrow> string \<Rightarrow> caps \<Rightarrow> mstate option" where
  "regex_match r s c = (case rmatch r s c of [] \<Rightarrow> None | x # _ \<Rightarrow> Some x)"

definition regex_search :: "rexp \<Rightarrow> string \<Rightarrow> caps option" where
  "regex_search r s = map_option snd (find (\<lambda>x. fst x = []) (rmatch r s []))"

text \<open>Whether a pattern can match without using up a character.\<close>

primrec nullable :: "rexp \<Rightarrow> bool" where
  "nullable Eps = True"
| "nullable (Cls cs) = False"
| "nullable (Seq a b) = (nullable a \<and> nullable b)"
| "nullable (Alt a b) = (nullable a \<or> nullable b)"
| "nullable (Star a) = True"
| "nullable (Grp name a) = nullable a"

section \<open>The library \<^verbatim>\<open>packaging.version\<close>\<close>

text \<open>
  \<^verbatim>\<open>Version\<close> is not code of the script; the model follows the library's
  \<^verbatim>\<open>VERSION_PATTERN\<close> (the PEP 440 grammar, compiled verbose and case-insensitive between
  \<^verbatim>\<open>^\s*\<close> and \<^verbatim>\<open>\s*$\<close>) group by group, and its constructor.
\<close>

definition digit :: rexp where
  "digit = Cls digits"

definition sep :: rexp where
  "sep = Cls ''-_.''"

definition alnum :: rexp where
  "alnum = Cls (ascii_lowercase @ ascii_uppercase @ digits)"

definition whitespace :: "char list" where
  "whitespace = [CHR 0x09, CHR 0x0A, CHR 0x0B, CHR 0x0C, CHR 0x0D, CHR 0x1C, CHR 0x1D,
                 CHR 0x1E, CHR 0x1F, CHR 0x20, CHR 0x85, CHR 0xA0]"

definition epoch_pattern :: rexp where
  "epoch_pattern = Seq (Grp ''epoch'' (Plus digit)) (Cls ''!'')"

definition release_pattern :: rexp where
  "release_pattern = Grp ''release'' (Seq (Plus digit) (Star (Seq (Cls ''.'') (Plus digit))))"

definition pre_pattern :: rexp where
  "pre_pattern = Grp ''pre'' (seqs
     [Opt sep,
      Grp ''pre_l'' (alts [lit_i ''alpha'', lit_i ''a'', lit_i ''beta'', lit_i ''b'',
                          lit_i ''preview'', lit_i ''pre'', lit_i ''c'', lit_i ''rc'']),
      Opt sep,
      Opt (Grp ''pre_n'' (Plus digit))])"

definition post_pattern :: rexp where
  "post_pattern = Grp ''post'' (Alt
     (Seq (Cls ''-'') (Grp ''post_n1'' (Plus digit)))
     (seqs
       [Opt sep,
        Grp ''post_l'' (alts [lit_i ''post'', lit_i ''rev'', lit_i ''r'']),
        Opt sep,
        Opt (Grp ''post_n2'' (Plus digit))]))"

definition dev_pattern :: rexp where
  "dev_pattern = Grp ''dev'' (seqs
     [Opt sep,
      Grp ''dev_l'' (lit_i ''dev''),
      Opt sep,
      Opt (Grp ''dev_n'' (Plus digit))])"

definition local_pattern :: rexp where
  "local_pattern =
     Seq (Cls ''+'') (Grp ''local'' (Seq (Plus alnum) (Star (Seq sep (Plus alnum)))))"

definition VERSION_PATTERN :: rexp where
  "VERSION_PATTERN = seqs
     [Opt (Cls ''vV''), Opt epoch_pattern, release_pattern, Opt pre_pattern,
      Opt post_pattern, Opt dev_pattern, Opt local_pattern]"

definition version_regex :: rexp where
  "version_regex = seqs [Star (Cls whitespace), VERSION_PATTERN, Star (Cls whitespace)]"

record version =
  v_epoch :: nat
  v_release :: "nat list"
  v_pre :: "(string \<times> nat) option"
  v_post :: "(string \<times> nat) option"
  v_dev :: "(string \<times> nat) option"
  v_local :: "(nat + string) list option"

text \<open>Python's truth value of a group: a group that took no part is \<^verbatim>\<open>None\<close>.\<close>

fun truthy :: "string option \<Rightarrow> bool" where
  "truthy None = False"
| "truthy (Some s) = (s \<noteq> [])"

definition parse_letter_version ::
  "string option \<Rightarrow> string option \<Rightarrow> (string \<times> nat) option" where
  "parse_letter_version letter number =
     (case letter of
        Some l \<Rightarrow>
          if l \<noteq> [] then
            let n = (case number of None \<Rightarrow> 0 | Some d \<Rightarrow> py_int d);
                l1 = lower l;
                l2 = (if l1 = ''alpha'' then ''a''
                      else if l1 = ''beta'' then ''b''
                      else if l1 \<in> set [''c'', ''pre'', ''preview''] then ''rc''
                      else if l1 \<in> set [''rev'', ''r''] then ''post''
                      else l1)
            in Some (l2, n)
          else (case number of
                  Some d \<Rightarrow> if d \<noteq> [] then Some (''post'', py_int d) else None
                | None \<Rightarrow> None)
      | None \<Rightarrow>
          (case number of
             Some d \<Rightarrow> if d \<noteq> [] then Some (''post'', py_int d) else None
           | None \<Rightarrow> None))"

primrec split_any :: "char list \<Rightarrow> string \<Rightarrow> string list" where
  "split_any seps [] = [[]]"
| "split_any seps (x # xs) =
     (if x \<in> set seps then [] # split_any seps xs
      else (case split_any seps xs of [] \<Rightarrow> [[x]] | w # ws \<Rightarrow> (x # w) # ws))"

definition parse_local_version :: "string option \<Rightarrow> (nat + string) list option" where
  "parse_local_version loc =
     (case loc of
        None \<Rightarrow> None
      | Some l \<Rightarrow> Some (map (\<lambda>part. if isdigit part then Inl (py_int part) else Inr (lower part))
                         (split_any ''._-'' l)))"

definition Version :: "string \<Rightarrow> exn + version" where
  "Version s =
     (case regex_search version_regex s of
        None \<Rightarrow> Inl InvalidVersion
      | Some m \<Rightarrow> Inr
          \<lparr> v_epoch = (if truthy (group m ''epoch'') then py_int (the (group m ''epoch'')) else 0),
            v_release = map py_int (split_on CHR ''.'' (the (group m ''release''))),
            v_pre = parse_letter_version (group m ''pre_l'') (group m ''pre_n''),
            v_post = parse_letter_version (group m ''post_l'')
                     (if truthy (group m ''post_n1'') then group m ''post_n1''
                      else group m ''post_n2''),
            v_dev = parse_letter_version (group m ''dev_l'') (group m ''dev_n''),
            v_local = parse_local_version (group m ''local'') \<rparr>)"

definition is_prerelease :: "version \<Rightarrow> bool" where
  "is_prerelease v = (v_dev v \<noteq> None \<or> v_pre v \<noteq> None)"

section \<open>\<^verbatim>\<open>extract_version\<close>\<close>

text \<open>
  The tag is a string (the caller sees to it). \<^verbatim>\<open>if package_name:\<close> is false for \<^verbatim>\<open>None\<close>
  and for the empty string. \<^verbatim>\<open>except InvalidVersion\<close> turns that exception, and no
  other, into \<^verbatim>\<open>None\<close>.
\<close>

definition extract_version :: "string \<Rightarrow> string option \<Rightarrow> exn + version option" where
  "extract_version tag_name package_name =
     (case (if truthy package_name
            then (let expected_prefix = the package_name @ ''==''
                  in if startswith tag_name expected_prefix
                     then Some (drop (length expected_prefix) tag_name)
                     else None)
            else Some tag_name) of
        None \<Rightarrow> Inr None
      | Some version_str \<Rightarrow>
          (case Version (if startswith version_str ''v'' then drop 1 version_str
                         else version_str) of
             Inl e \<Rightarrow> if e = InvalidVersion then Inr None else Inl e
           | Inr v \<Rightarrow> Inr (Some v)))"

text \<open>The classification the filter reads off a tag when no package filter is given.\<close>

definition prerelease_flag :: "string \<Rightarrow> bool option" where
  "prerelease_flag tag_name =
     (case extract_version tag_name None of
        Inr (Some v) \<Rightarrow> Some (is_prerelease v)
      | _ \<Rightarrow> None)"

subsection \<open>Semantic versioning, as the specification names it\<close>

text \<open>
  The script's documentation and the specification both speak of semantic versioning.
  This second definition follows those words, not the code: the grammar of a semantic
  version (semver.org, item 9 and the suggested regular expression), in which a
  pre-release segment is a hyphen after the patch number followed by dot-separated
  identifiers of letters, digits and hyphens. It is what the code's classification is
  compared with.
\<close>

definition semver_number :: rexp where
  "semver_number = Alt (Cls ''0'') (Seq (Cls ''123456789'') (Star digit))"

definition semver_letter :: rexp where
  "semver_letter = Cls (ascii_lowercase @ ascii_uppercase @ ''-'')"

definition semver_char :: rexp where
  "semver_char = Cls (digits @ ascii_lowercase @ ascii_uppercase @ ''-'')"

definition semver_identifier :: rexp where
  "semver_identifier =
     Alt semver_number (Seq (Star digit) (Seq semver_letter (Star semver_char)))"

definition semver_regex :: rexp where
  "semver_regex = seqs
     [Grp ''major'' semver_number, Cls ''.'', Grp ''minor'' semver_number, Cls ''.'',
      Grp ''patch'' semver_number,
      Opt (Seq (Cls ''-'')
        (Grp ''prerelease''
           (Seq semver_identifier (Star (Seq (Cls ''.'') semver_identifier))))),
      Opt (Seq (Cls ''+'')
        (Grp ''buildmetadata''
           (Seq (Plus semver_char) (Star (Seq (Cls ''.'') (Plus semver_char))))))]"

definition semver_prerelease :: "string \<Rightarrow> bool" where
  "semver_prerelease s =
     (case regex_search semver_regex s of
        None \<Rightarrow> False
      | Some m \<Rightarrow> group m ''prerelease'' \<noteq> None)"

section \<open>Dates and \<^verbatim>\<open>datetime.strptime\<close>\<close>

record date =
  year :: nat
  month :: nat
  day :: nat

record datetime =
  the_date :: date
  hour :: nat
  minute :: nat
  second :: nat

definition is_leap :: "nat \<Rightarrow> bool" where
  "is_leap y = (y mod 4 = 0 \<and> (y mod 400 = 0 \<or> y mod 100 \<noteq> 0))"

definition days_in_month :: "nat \<Rightarrow> nat \<Rightarrow> nat" where
  "days_in_month y m =
     (if m = 2 then (if is_leap y then 29 else 28)
      else if m \<in> set [4, 6, 9, 11] then 30 else 31)"

text \<open>The constructors \<^verbatim>\<open>date(y, m, d)\<close> and \<^verbatim>\<open>datetime(...)\<close> check their ranges.\<close>

definition new_date :: "nat \<Rightarrow> nat \<Rightarrow> nat \<Rightarrow> exn + date" where
  "new_date y m d =
     (if 1 \<le> y \<and> y \<le> 9999 \<and> 1 \<le> m \<and> m \<le> 12 \<and> 1 \<le> d \<and> d \<le> days_in_month y m
      then Inr \<lparr>year = y, month = m, day = d\<rparr>
      else Inl ValueError)"

definition new_datetime :: "date \<Rightarrow> nat \<Rightarrow> nat \<Rightarrow> nat \<Rightarrow> exn + datetime" where
  "new_datetime dt h mi sec =
     (if h \<le> 23 \<and> mi \<le> 59 \<and> sec \<le> 59
      then Inr \<lparr>the_date = dt, hour = h, minute = mi, second = sec\<rparr>
      else Inl ValueError)"

text \<open>\<^verbatim>\<open>a < b\<close> on dates compares year, month and day in this order.\<close>

definition date_lt :: "date \<Rightarrow> date \<Rightarrow> bool" where
  "date_lt a b =
     (year a < year b \<or>
      (year a = year b \<and> (month a < month b \<or> (month a = month b \<and> day a < day b))))"

text \<open>\<^verbatim>\<open>str(date)\<close> is the ISO form \<^verbatim>\<open>%04d-%02d-%02d\<close>.\<close>

definition isoformat :: "date \<Rightarrow> string" where
  "isoformat d = zero_pad 4 (year d) @ ''-'' @ zero_pad 2 (month d) @ ''-'' @ zero_pad 2 (day d)"

text \<open>
  \<^verbatim>\<open>_strptime\<close> turns the format into a regular expression, one group per directive,
  compiled case-insensitive; it takes the first match at the front of the string
  and rejects a string the match does not use up.
\<close>

definition nonzero :: rexp where
  "nonzero = Cls ''123456789''"

definition directive_Y :: rexp where
  "directive_Y = Grp ''Y'' (seqs [digit, digit, digit, digit])"

definition directive_m :: rexp where
  "directive_m = Grp ''m'' (alts [Seq (Cls ''1'') (Cls ''012''), Seq (Cls ''0'') nonzero, nonzero])"

definition directive_d :: rexp where
  "directive_d = Grp ''d'' (alts [Seq (Cls ''3'') (Cls ''01''), Seq (Cls ''12'') digit,
                                 Seq (Cls ''0'') nonzero, nonzero, Seq (Cls '' '') nonzero])"

definition directive_H :: rexp where
  "directive_H = Grp ''H'' (alts [Seq (Cls ''2'') (Cls ''0123''), Seq (Cls ''01'') digit, digit])"

definition directive_M :: rexp where
  "directive_M = Grp ''M'' (alts [Seq (Cls ''012345'') digit, digit])"

definition directive_S :: rexp where
  "directive_S = Grp ''S'' (alts [Seq (Cls ''6'') (Cls ''01''), Seq (Cls ''012345'') digit, digit])"

definition date_format :: rexp where
  "date_format = seqs [directive_Y, lit_i ''-'', directive_m, lit_i ''-'', directive_d]"

definition timestamp_format :: rexp where
  "timestamp_format = seqs
     [directive_Y, lit_i ''-'', directive_m, lit_i ''-'', directive_d, lit_i ''T'',
      directive_H, lit_i '':'', directive_M, lit_i '':'', directive_S, lit_i ''Z'']"

definition strptime_fields :: "rexp \<Rightarrow> string \<Rightarrow> exn + caps" where
  "strptime_fields format_regex data_string =
     (case regex_match format_regex data_string [] of
        None \<Rightarrow> Inl ValueError
      | Some found \<Rightarrow> if fst found \<noteq> [] then Inl ValueError else Inr (snd found))"

definition field :: "caps \<Rightarrow> string \<Rightarrow> nat" where
  "field found name = py_int (the (group found name))"

text \<open>\<^verbatim>\<open>datetime.strptime(s, '%Y-%m-%d').date()\<close>, as \<^verbatim>\<open>main\<close> reads the start date.\<close>

definition strptime_date :: "string \<Rightarrow> exn + date" where
  "strptime_date data_string =
     (case strptime_fields date_format data_string of
        Inl e \<Rightarrow> Inl e
      | Inr found \<Rightarrow> new_date (field found ''Y'') (field found ''m'') (field found ''d''))"

text \<open>
  \<^verbatim>\<open>datetime.strptime(v, '%Y-%m-%dT%H:%M:%SZ')\<close> on a field of a record: a value that is
  not a string is a \<^verbatim>\<open>TypeError\<close>.
\<close>

definition strptime_timestamp :: "jval \<Rightarrow> exn + datetime" where
  "strptime_timestamp v =
     (case v of
        JStr data_string \<Rightarrow>
          (case strptime_fields timestamp_format data_string of
             Inl e \<Rightarrow> Inl e
           | Inr found \<Rightarrow>
               (case new_date (field found ''Y'') (field found ''m'') (field found ''d'') of
                  Inl e \<Rightarrow> Inl e
                | Inr dt \<Rightarrow>
                    new_datetime dt (field found ''H'') (field found ''M'') (field found ''S'')))
      | _ \<Rightarrow> Inl TypeError)"

section \<open>\<^verbatim>\<open>filter_releases\<close>\<close>

text \<open>
  The body of the \<^verbatim>\<open>try\<close> for one release: \<open>Inl\<close> an exception it raises,
  \<open>Inr None\<close> a \<^verbatim>\<open>continue\<close>, \<open>Inr (Some p)\<close> the pair it appends. The debug message of
  the date test reads \<^verbatim>\<open>release['tag_name']\<close>, so a record without that key raises
  there as well. A tag that is not a string has no \<^verbatim>\<open>startswith\<close>.
\<close>

definition process_release ::
  "date \<Rightarrow> string option \<Rightarrow> bool \<Rightarrow> jval \<Rightarrow> exn + (string \<times> date) option" where
  "process_release start_date package_name include_prereleases release =
     (case subscript release ''published_at'' of
        Inl e \<Rightarrow> Inl e
      | Inr release_date_str \<Rightarrow>
          (case strptime_timestamp release_date_str of
             Inl e \<Rightarrow> Inl e
           | Inr dt \<Rightarrow>
               if date_lt (the_date dt) start_date
               then (case subscript release ''tag_name'' of
                       Inl e \<Rightarrow> Inl e
                     | Inr _ \<Rightarrow> Inr None)
               else (case subscript release ''tag_name'' of
                       Inl e \<Rightarrow> Inl e
                     | Inr (JStr tag_name) \<Rightarrow>
                         (case extract_version tag_name package_name of
                            Inl e \<Rightarrow> Inl e
                          | Inr None \<Rightarrow> Inr None
                          | Inr (Some v) \<Rightarrow>
                              if \<not> include_prereleases \<and> is_prerelease v then Inr None
                              else Inr (Some (tag_name, the_date dt)))
                     | Inr _ \<Rightarrow> Inl AttributeError)))"

text \<open>The loop: \<^verbatim>\<open>except Exception\<close> logs and goes on; anything else would leave it.\<close>

fun filter_loop ::
  "date \<Rightarrow> string option \<Rightarrow> bool \<Rightarrow> jval list \<Rightarrow> (string \<times> date) list \<Rightarrow>
   exn + (string \<times> date) list" where
  "filter_loop start_date package_name include_prereleases [] filtered = Inr filtered"
| "filter_loop start_date package_name include_prereleases (release # rest) filtered =
     (case process_release start_date package_name include_prereleases release of
        Inl e \<Rightarrow>
          if is_Exception e
          then filter_loop start_date package_name include_prereleases rest filtered
          else Inl e
      | Inr None \<Rightarrow> filter_loop start_date package_name include_prereleases rest filtered
      | Inr (Some p) \<Rightarrow>
          filter_loop start_date package_name include_prereleases rest (filtered @ [p]))"

definition filter_releases ::
  "jval list \<Rightarrow> date \<Rightarrow> string option \<Rightarrow> bool \<Rightarrow> exn + (string \<times> date) list" where
  "filter_releases releases start_date package_name include_prereleases =
     filter_loop start_date package_name include_prereleases releases []"

text \<open>
  Two readings of a single release, used to state what the loop computes: what the
  release adds to the result, and the pair of its tag and publication date, when it has
  both.
\<close>

definition selected :: "date \<Rightarrow> string option \<Rightarrow> bool \<Rightarrow> jval \<Rightarrow> (string \<times> date) list" where
  "selected start_date package_name include_prereleases release =
     (case process_release start_date package_name include_prereleases release of
        Inr (Some p) \<Rightarrow> [p]
      | _ \<Rightarrow> [])"

definition release_entry :: "jval \<Rightarrow> (string \<times> date) option" where
  "release_entry release =
     (case subscript release ''tag_name'' of
        Inr (JStr tag_name) \<Rightarrow>
          (case subscript release ''published_at'' of
             Inr v \<Rightarrow> (case strptime_timestamp v of
                         Inr dt \<Rightarrow> Some (tag_name, the_date dt)
                       | Inl _ \<Rightarrow> None)
           | Inl _ \<Rightarrow> None)
      | _ \<Rightarrow> None)"

section \<open>\<^verbatim>\<open>save_to_file\<close>\<close>

text \<open>
  The file system: the text of each file, and the paths that \<^verbatim>\<open>open(path, 'w')\<close>
  refuses. Opening for writing truncates; a refused \<^verbatim>\<open>open\<close> is logged and ends the
  process. Failures after the file is open, and the translation of newlines and
  characters that a platform's text mode may apply, are not modelled.
\<close>

record fsys =
  files :: "string \<Rightarrow> string option"
  refuses :: "string \<Rightarrow> bool"

definition entry_text :: "string \<times> date \<Rightarrow> string" where
  "entry_text p = fst p @ '', '' @ isoformat (snd p)"

definition entry_line :: "string \<times> date \<Rightarrow> string" where
  "entry_line p = entry_text p @ [CHR 0x0A]"

definition save_to_file :: "(string \<times> date) list \<Rightarrow> string \<Rightarrow> fsys \<Rightarrow> exn + fsys" where
  "save_to_file releases output_file fs =
     (if refuses fs output_file then Inl (SystemExit 1)
      else Inr (fs\<lparr>files := (files fs)(output_file \<mapsto> concat (map entry_line releases))\<rparr>))"

section \<open>\<^verbatim>\<open>parse_github_url\<close>\<close>

text \<open>
  \<^verbatim>\<open>urllib.parse.urlparse\<close> is the standard library's; what it makes of the URL (the path
  component, or the exception it raises) is the parameter \<open>urlparse_path\<close>. The rest is
  the script's: strip the slashes at both ends, split at every slash, take the first
  two parts when there are two. \<^verbatim>\<open>sys.exit(1)\<close> inside the \<^verbatim>\<open>try\<close> is not caught by
  \<^verbatim>\<open>except Exception\<close>.
\<close>

definition parse_github_url ::
  "(string \<Rightarrow> exn + string) \<Rightarrow> string \<Rightarrow> exn + (string \<times> string)" where
  "parse_github_url urlparse_path repo_url =
     (case urlparse_path repo_url of
        Inl e \<Rightarrow> if is_Exception e then Inl (SystemExit 1) else Inl e
      | Inr path \<Rightarrow>
          (let path_parts = split_on CHR ''/'' (strip_char CHR ''/'' path)
           in if length path_parts \<ge> 2
              then Inr (path_parts ! 0, path_parts ! 1)
              else Inl (SystemExit 1)))"

section \<open>\<^verbatim>\<open>fetch_releases\<close>\<close>

text \<open>
  The network is the parameter \<open>http_get\<close>: for a URL and the request headers, the
  decoded JSON array of the response, or the exception that \<^verbatim>\<open>requests.get\<close>,
  \<^verbatim>\<open>raise_for_status\<close> or \<^verbatim>\<open>json\<close> raises. The loop has no bound of its own, so it is a
  partial function: \<open>None\<close> is a loop that never ends. Besides the result it returns the
  URLs it requested, in order.
\<close>

definition releases_url :: "string \<Rightarrow> string \<Rightarrow> nat \<Rightarrow> nat \<Rightarrow> string" where
  "releases_url owner repo page per_page =
     ''https://api.github.com/repos/'' @ owner @ ''/'' @ repo @ ''/releases?page=''
       @ py_str page @ ''&per_page='' @ py_str per_page"

definition request_headers :: "string option \<Rightarrow> (string \<times> string) list" where
  "request_headers token =
     (''Accept'', ''application/vnd.github.v3+json'')
       # (if truthy token then [(''Authorization'', ''token '' @ the token)] else [])"

partial_function (option) fetch_loop ::
  "(string \<Rightarrow> (string \<times> string) list \<Rightarrow> exn + jval list) \<Rightarrow> string \<Rightarrow> string \<Rightarrow>
   (string \<times> string) list \<Rightarrow> nat \<Rightarrow> jval list \<Rightarrow> string list \<Rightarrow>
   (string list \<times> (exn + jval list)) option" where
  "fetch_loop http_get owner repo headers page releases requested =
     (let url = releases_url owner repo page 100 in
      case http_get url headers of
        Inl e \<Rightarrow>
          Some (requested @ [url], Inl (if e = RequestException then SystemExit 1 else e))
      | Inr page_releases \<Rightarrow>
          if page_releases = [] then Some (requested @ [url], Inr releases)
          else fetch_loop http_get owner repo headers (page + 1) (releases @ page_releases)
                 (requested @ [url]))"

definition fetch_releases ::
  "(string \<Rightarrow> (string \<times> string) list \<Rightarrow> exn + jval list) \<Rightarrow> string \<Rightarrow> string \<Rightarrow>
   string option \<Rightarrow> (string list \<times> (exn + jval list)) option" where
  "fetch_releases http_get owner repo token =
     fetch_loop http_get owner repo (request_headers token) 1 [] []"

section \<open>\<^verbatim>\<open>main\<close>\<close>

text \<open>
  The parsed command line, the world the process runs in, and what a run leaves
  behind: the lines printed, the file system and the exit status. Logging is not
  modelled. \<^verbatim>\<open>except Exception\<close> in \<^verbatim>\<open>main\<close> ends the process with status 1, and so does
  every \<^verbatim>\<open>sys.exit(1)\<close> below it.
\<close>

record args =
  arg_repo_url :: string
  arg_start_date :: string
  arg_output :: "string option"
  arg_package_name :: "string option"
  arg_token :: "string option"
  arg_include_prereleases :: bool

record world =
  w_urlparse :: "string \<Rightarrow> exn + string"
  w_http :: "string \<Rightarrow> (string \<times> string) list \<Rightarrow> exn + jval list"
  w_fs :: fsys

record outcome =
  stdout :: "string list"
  fs_after :: fsys
  exit_code :: nat

fun exit_status :: "exn \<Rightarrow> nat" where
  "exit_status (SystemExit n) = n"
| "exit_status _ = 1"

definition default_output_file :: "string \<Rightarrow> string \<Rightarrow> string option \<Rightarrow> string" where
  "default_output_file owner repo package_name =
     (if truthy package_name
      then owner @ ''_'' @ repo @ ''_'' @ the package_name @ ''_releases.txt''
      else owner @ ''_'' @ repo @ ''_releases.txt'')"

definition choose_output_file ::
  "string option \<Rightarrow> string \<Rightarrow> string \<Rightarrow> string option \<Rightarrow> string" where
  "choose_output_file output_file owner repo package_name =
     (if \<not> truthy output_file then default_output_file owner repo package_name
      else the output_file)"

definition main :: "world \<Rightarrow> args \<Rightarrow> outcome option" where
  "main w a =
     (case strptime_date (arg_start_date a) of
        Inl e \<Rightarrow> Some \<lparr>stdout = [], fs_after = w_fs w, exit_code = exit_status e\<rparr>
      | Inr start_date \<Rightarrow>
     (case parse_github_url (w_urlparse w) (arg_repo_url a) of
        Inl e \<Rightarrow> Some \<lparr>stdout = [], fs_after = w_fs w, exit_code = exit_status e\<rparr>
      | Inr (owner, repo) \<Rightarrow>
     (case fetch_releases (w_http w) owner repo (arg_token a) of
        None \<Rightarrow> None
      | Some (_, Inl e) \<Rightarrow> Some \<lparr>stdout = [], fs_after = w_fs w, exit_code = exit_status e\<rparr>
      | Some (_, Inr releases) \<Rightarrow>
     (case filter_releases releases start_date (arg_package_name a)
             (arg_include_prereleases a) of
        Inl e \<Rightarrow> Some \<lparr>stdout = [], fs_after = w_fs w, exit_code = exit_status e\<rparr>
      | Inr filtered_releases \<Rightarrow>
     (case save_to_file filtered_releases
             (choose_output_file (arg_output a) owner repo (arg_package_name a)) (w_fs w) of
        Inl e \<Rightarrow> Some \<lparr>stdout = map entry_text filtered_releases, fs_after = w_fs w,
                        exit_code = exit_status e\<rparr>
      | Inr fs' \<Rightarrow> Some \<lparr>stdout = map entry_text filtered_releases, fs_after = fs',
                         exit_code = 0\<rparr>)))))"

section \<open>The scenario of the specification\<close>

definition release_record :: "string \<Rightarrow> string \<Rightarrow> jval" where
  "release_record tag published = JObj [(''tag_name'', JStr tag), (''published_at'', JStr published)]"

definition scenario_releases :: "jval list" where
  "scenario_releases =
     [release_record ''v1.2.0'' ''2024-02-01T00:00:00Z'',
      release_record ''v1.3.0-beta'' ''2024-03-01T00:00:00Z'',
      release_record ''v0.9.0'' ''2023-12-01T00:00:00Z'']"


text \<open>
  A world for the scenario: the repository \<^verbatim>\<open>acme/widget\<close>, whose three releases the API
  serves on two pages followed by an empty one, an empty file system that refuses the
  empty path, and a command line with \<^verbatim>\<open>-o ""\<close>. A second API never runs out of
  releases.
\<close>

definition scenario_api :: "string \<Rightarrow> (string \<times> string) list \<Rightarrow> exn + jval list" where
  "scenario_api url headers =
     (if url = releases_url ''acme'' ''widget'' 1 100 then Inr (take 2 scenario_releases)
      else if url = releases_url ''acme'' ''widget'' 2 100 then Inr (drop 2 scenario_releases)
      else Inr [])"

definition endless_api :: "string \<Rightarrow> (string \<times> string) list \<Rightarrow> exn + jval list" where
  "endless_api url headers = Inr [JNull]"

definition scenario_world :: world where
  "scenario_world =
     \<lparr>w_urlparse = (\<lambda>url. if url = ''https://github.com/acme/widget''
                            then Inr ''/acme/widget'' else Inl ValueError),
      w_http = scenario_api,
      w_fs = \<lparr>files = (\<lambda>path. None), refuses = (\<lambda>path. path = [])\<rparr>\<rparr>"

definition scenario_args :: args where
  "scenario_args =
     \<lparr>arg_repo_url = ''https://github.com/acme/widget'', arg_start_date = ''2024-01-01'',
      arg_output = Some [], arg_package_name = None, arg_token = None,
      arg_include_prereleases = False\<rparr>"

text \<open>The spelling \<^verbatim>\<open>YYYY-MM-DDTHH:MM:SSZ\<close> of a date and a time of day.\<close>

definition timestamp_text :: "date \<Rightarrow> nat \<Rightarrow> nat \<Rightarrow> nat \<Rightarrow> string" where
  "timestamp_text d h mi s =
     isoformat d @ ''T'' @ zero_pad 2 h @ '':'' @ zero_pad 2 mi @ '':'' @ zero_pad 2 s @ ''Z''"

section \<open>Properties of the matcher\<close>

lemma bind_append: "bind g (xs @ ys) = bind g xs @ bind g ys"
  by (induction xs) simp_all

lemma bind_cong_set:
  "(\<And>x. x \<in> set xs \<Longrightarrow> g (fst x) (snd x) = h (fst x) (snd x)) \<Longrightarrow> bind g xs = bind h xs"
  by (induction xs) simp_all

lemma bind_empty:
  "(\<And>x. x \<in> set xs \<Longrightarrow> g (fst x) (snd x) = []) \<Longrightarrow> bind g xs = []"
  by (induction xs) simp_all

lemma set_bind: "set (bind g xs) = (\<Union>x\<in>set xs. set (g (fst x) (snd x)))"
  by (induction xs) auto

lemma star_loop_fuel:
  "length s \<le> n \<Longrightarrow> length s \<le> m \<Longrightarrow> star_loop f n s c = star_loop f m s c"
proof (induction n arbitrary: m s c)
  case 0
  then have s: "s = []" by simp
  show ?case
  proof (cases m)
    case 0
    then show ?thesis by simp
  next
    case (Suc m')
    have "bind (shorter 0 (star_loop f m')) (f [] c) = []"
      by (rule bind_empty) (simp add: shorter_def)
    with Suc s show ?thesis by simp
  qed
next
  case (Suc n)
  show ?case
  proof (cases m)
    case 0
    with Suc.prems have s: "s = []" by simp
    have "bind (shorter 0 (star_loop f n)) (f [] c) = []"
      by (rule bind_empty) (simp add: shorter_def)
    with 0 s show ?thesis by simp
  next
    case m: (Suc m')
    have "bind (shorter (length s) (star_loop f n)) (f s c)
        = bind (shorter (length s) (star_loop f m')) (f s c)"
    proof (rule bind_cong_set)
      fix x assume "x \<in> set (f s c)"
      show "shorter (length s) (star_loop f n) (fst x) (snd x)
          = shorter (length s) (star_loop f m') (fst x) (snd x)"
      proof (cases "length (fst x) < length s")
        case True
        with Suc.prems m have "length (fst x) \<le> n" "length (fst x) \<le> m'" by simp_all
        from Suc.IH [OF this] True show ?thesis by (simp add: shorter_def)
      next
        case False
        then show ?thesis by (simp add: shorter_def)
      qed
    qed
    with m show ?thesis by simp
  qed
qed

lemma rmatch_Star_unfold:
  "rmatch (Star a) s c = bind (shorter (length s) (rmatch (Star a))) (rmatch a s c) @ [(s, c)]"
proof (cases "length s")
  case 0
  have "bind (shorter 0 (rmatch (Star a))) (rmatch a s c) = []"
    by (rule bind_empty) (simp add: shorter_def)
  with 0 show ?thesis by simp
next
  case (Suc n)
  have "bind (shorter (Suc n) (star_loop (rmatch a) n)) (rmatch a s c)
      = bind (shorter (Suc n) (rmatch (Star a))) (rmatch a s c)"
  proof (rule bind_cong_set)
    fix x assume "x \<in> set (rmatch a s c)"
    show "shorter (Suc n) (star_loop (rmatch a) n) (fst x) (snd x)
        = shorter (Suc n) (rmatch (Star a)) (fst x) (snd x)"
      using star_loop_fuel [of "fst x" n "length (fst x)" "rmatch a" "snd x"]
      by (simp add: shorter_def)
  qed
  with Suc show ?thesis by simp
qed

lemma star_loop_suffix:
  assumes f: "\<And>s c x. x \<in> set (f s c) \<Longrightarrow> suffix (fst x) s"
  shows "x \<in> set (star_loop f n s c) \<Longrightarrow> suffix (fst x) s"
proof (induction n arbitrary: s c x)
  case 0
  then show ?case by simp
next
  case (Suc n)
  from Suc.prems consider "x = (s, c)"
    | y where "y \<in> set (f s c)" "x \<in> set (shorter (length s) (star_loop f n) (fst y) (snd y))"
    by (auto simp: set_bind)
  then show ?case
  proof cases
    case 1
    then show ?thesis by simp
  next
    case 2
    then have "x \<in> set (star_loop f n (fst y) (snd y))"
      by (simp add: shorter_def split: if_splits)
    then have "suffix (fst x) (fst y)" by (rule Suc.IH)
    moreover have "suffix (fst y) s" using 2(1) by (rule f)
    ultimately show ?thesis by (rule suffix_order.trans)
  qed
qed

lemma rmatch_suffix: "x \<in> set (rmatch r s c) \<Longrightarrow> suffix (fst x) s"
proof (induction r arbitrary: s c x)
  case Eps
  then show ?case by simp
next
  case (Cls cs)
  then show ?case by (auto simp: suffix_def split: list.splits if_splits)
next
  case (Seq a b)
  then obtain y where "y \<in> set (rmatch a s c)" "x \<in> set (rmatch b (fst y) (snd y))"
    by (auto simp: set_bind)
  then have "suffix (fst y) s" "suffix (fst x) (fst y)"
    using Seq.IH by blast+
  then show ?case using suffix_order.trans by blast
next
  case (Alt a b)
  from Alt.prems have "x \<in> set (rmatch a s c) \<or> x \<in> set (rmatch b s c)" by simp
  then show ?case using Alt.IH by blast
next
  case (Star a)
  then show ?case using star_loop_suffix [of "rmatch a"] by simp
next
  case (Grp name a)
  then show ?case by (auto simp: capture_def)
qed

lemma rmatch_not_nullable: "\<not> nullable r \<Longrightarrow> rmatch r [] c = []"
proof (induction r arbitrary: c)
  case (Seq a b)
  show ?case
  proof (cases "nullable a")
    case False
    then show ?thesis using Seq.IH(1) by simp
  next
    case True
    with Seq.prems have nb: "\<not> nullable b" by simp
    have "bind (rmatch b) (rmatch a [] c) = []"
    proof (rule bind_empty)
      fix x assume "x \<in> set (rmatch a [] c)"
      then have "fst x = []" using rmatch_suffix by fastforce
      then show "rmatch b (fst x) (snd x) = []" using Seq.IH(2) [OF nb] by simp
    qed
    then show ?thesis by simp
  qed
qed simp_all

lemma regex_match_Eps: "regex_match Eps s c = Some (s, c)"
  by (simp add: regex_match_def)

lemma regex_match_Seq:
  "regex_match a s c = Some (s1, c1) \<Longrightarrow> regex_match b s1 c1 = Some y
   \<Longrightarrow> regex_match (Seq a b) s c = Some y"
  by (auto simp: regex_match_def split: list.splits)

lemma regex_match_Alt_left:
  "regex_match a s c = Some x \<Longrightarrow> regex_match (Alt a b) s c = Some x"
  by (auto simp: regex_match_def split: list.splits)

lemma regex_match_Opt_skip:
  "rmatch a s c = [] \<Longrightarrow> regex_match (Opt a) s c = Some (s, c)"
  by (simp add: regex_match_def Opt_def)

lemma regex_match_Grp:
  "regex_match a s c = Some x
   \<Longrightarrow> regex_match (Grp name a) s c = Some (fst x, (name, take (length s - length (fst x)) s) # snd x)"
  by (auto simp: regex_match_def capture_def split: list.splits)

lemma regex_match_Star_stop:
  "rmatch a s c = [] \<Longrightarrow> regex_match (Star a) s c = Some (s, c)"
  by (subst regex_match_def, subst rmatch_Star_unfold) simp

lemma regex_match_Star_step:
  "regex_match a s c = Some (s1, c1) \<Longrightarrow> length s1 < length s
   \<Longrightarrow> regex_match (Star a) s1 c1 = Some y
   \<Longrightarrow> regex_match (Star a) s c = Some y"
  by (subst regex_match_def, subst rmatch_Star_unfold)
     (auto simp: regex_match_def shorter_def split: list.splits)

lemma regex_match_Cls:
  "x \<in> set cs \<Longrightarrow> regex_match (Cls cs) (x # xs) c = Some (xs, c)"
  by (simp add: regex_match_def)

lemma regex_match_Star_Cls:
  "set ds \<subseteq> set cs \<Longrightarrow> rest = [] \<or> hd rest \<notin> set cs
   \<Longrightarrow> regex_match (Star (Cls cs)) (ds @ rest) c = Some (rest, c)"
proof (induction ds)
  case Nil
  then have "rmatch (Cls cs) rest c = []" by (cases rest) auto
  then show ?case by (simp add: regex_match_Star_stop)
next
  case (Cons d ds)
  show ?case
    by (rule regex_match_Star_step [where ?s1.0 = "ds @ rest" and ?c1.0 = c])
       (use Cons in \<open>simp_all add: regex_match_Cls\<close>)
qed

lemma regex_match_Plus_Cls:
  "ds \<noteq> [] \<Longrightarrow> set ds \<subseteq> set cs \<Longrightarrow> rest = [] \<or> hd rest \<notin> set cs
   \<Longrightarrow> regex_match (Plus (Cls cs)) (ds @ rest) c = Some (rest, c)"
proof -
  assume ds: "ds \<noteq> []" "set ds \<subseteq> set cs" and rest: "rest = [] \<or> hd rest \<notin> set cs"
  then obtain d ds' where d: "ds = d # ds'" "d \<in> set cs" "set ds' \<subseteq> set cs"
    by (cases ds) auto
  have "regex_match (Star (Cls cs)) (ds' @ rest) c = Some (rest, c)"
    using d(3) rest by (rule regex_match_Star_Cls)
  then show ?thesis
    unfolding Plus_def d(1)
    by (intro regex_match_Seq [where ?s1.0 = "ds' @ rest" and ?c1.0 = c])
       (simp_all add: regex_match_Cls d(2))
qed

lemma regex_search_full:
  "regex_match r s [] = Some ([], c) \<Longrightarrow> regex_search r s = Some c"
  by (auto simp: regex_match_def regex_search_def split: list.splits)

section \<open>Versions of plain tags\<close>

lemma split_on_single: "ch \<notin> set a \<Longrightarrow> split_on ch a = [a]"
  by (induction a) auto

lemma split_on_append: "ch \<notin> set a \<Longrightarrow> split_on ch (a @ ch # b) = a # split_on ch b"
  by (induction a) auto

lemma isdigit_set: "isdigit X \<Longrightarrow> X \<noteq> [] \<and> set X \<subseteq> set digits"
  by (auto simp: isdigit_def list_all_iff)

lemma digits_no_marks:
  "ch \<in> set digits \<Longrightarrow>
     ch \<noteq> CHR ''.'' \<and> ch \<noteq> CHR ''!'' \<and> ch \<notin> set ''vV'' \<and> ch \<notin> set whitespace"
  by (auto simp: digits_def whitespace_def)

lemma rmatch_Seq_absent:
  assumes "ch \<notin> set s"
  shows "rmatch (Seq a (Cls [ch])) s c = []"
proof -
  have "bind (rmatch (Cls [ch])) (rmatch a s c) = []"
  proof (rule bind_empty)
    fix x assume "x \<in> set (rmatch a s c)"
    then have "suffix (fst x) s" by (rule rmatch_suffix)
    then have "set (fst x) \<subseteq> set s" by (rule set_mono_suffix)
    with assms show "rmatch (Cls [ch]) (fst x) (snd x) = []"
      by (cases "fst x") auto
  qed
  then show ?thesis by simp
qed

lemma dotted_step:
  assumes Y: "isdigit Y" and rest: "rest = [] \<or> hd rest \<notin> set digits"
    and more: "regex_match (Star (Seq (Cls ''.'') (Plus digit))) rest c = Some y"
  shows "regex_match (Star (Seq (Cls ''.'') (Plus digit))) (CHR ''.'' # Y @ rest) c = Some y"
proof (rule regex_match_Star_step [where ?s1.0 = rest and ?c1.0 = c])
  have "regex_match (Plus digit) (Y @ rest) c = Some (rest, c)"
    unfolding digit_def using isdigit_set [OF Y] rest by (intro regex_match_Plus_Cls) auto
  then show "regex_match (Seq (Cls ''.'') (Plus digit)) (CHR ''.'' # Y @ rest) c = Some (rest, c)"
    by (intro regex_match_Seq [where ?s1.0 = "Y @ rest" and ?c1.0 = c])
       (simp_all add: regex_match_Cls)
  show "length rest < length (CHR ''.'' # Y @ rest)" by simp
  show "regex_match (Star (Seq (Cls ''.'') (Plus digit))) rest c = Some y" by (rule more)
qed

lemma release_three:
  assumes X: "isdigit X" and Y: "isdigit Y" and Z: "isdigit Z"
  shows "regex_match release_pattern (X @ ''.'' @ Y @ ''.'' @ Z) c
           = Some ([], (''release'', X @ ''.'' @ Y @ ''.'' @ Z) # c)"
proof -
  let ?D = "Star (Seq (Cls ''.'') (Plus digit))"
  have stop: "regex_match ?D [] c = Some ([], c)"
    by (rule regex_match_Star_stop) simp
  have z: "regex_match ?D (CHR ''.'' # Z @ []) c = Some ([], c)"
    using Z _ stop by (rule dotted_step) simp
  have y: "regex_match ?D (CHR ''.'' # Y @ (CHR ''.'' # Z)) c = Some ([], c)"
    using Y _ z [simplified] by (rule dotted_step) (simp add: digits_def)
  have x: "regex_match (Plus digit) (X @ (CHR ''.'' # Y @ CHR ''.'' # Z)) c
             = Some (CHR ''.'' # Y @ CHR ''.'' # Z, c)"
    unfolding digit_def using isdigit_set [OF X]
    by (intro regex_match_Plus_Cls) (auto simp: digits_def)
  have "regex_match (Seq (Plus digit) ?D) (X @ ''.'' @ Y @ ''.'' @ Z) c = Some ([], c)"
    using x y by (simp add: regex_match_Seq)
  from regex_match_Grp [OF this, of "''release''"] show ?thesis
    by (simp add: release_pattern_def)
qed

lemma tail_not_nullable:
  "\<not> nullable pre_pattern" "\<not> nullable post_pattern" "\<not> nullable dev_pattern"
  "\<not> nullable local_pattern"
  by code_simp+

lemma version_regex_three:
  assumes X: "isdigit X" and Y: "isdigit Y" and Z: "isdigit Z"
  shows "regex_search version_regex (X @ ''.'' @ Y @ ''.'' @ Z)
           = Some [(''release'', X @ ''.'' @ Y @ ''.'' @ Z)]"
proof -
  let ?s = "X @ ''.'' @ Y @ ''.'' @ Z"
  let ?c = "[(''release'', ?s)]"
  from isdigit_set [OF X] obtain x xs where xs: "X = x # xs" "x \<in> set digits"
    by (cases X) auto
  have hd: "?s \<noteq> []" "hd ?s \<in> set digits" using xs by simp_all
  have nobang: "CHR ''!'' \<notin> set ?s"
    using isdigit_set [OF X] isdigit_set [OF Y] isdigit_set [OF Z] digits_no_marks by auto
  have ws: "regex_match (Star (Cls whitespace)) ?s [] = Some (?s, [])"
    using regex_match_Star_Cls [of "[]" whitespace ?s "[]"] hd digits_no_marks by simp
  have v: "regex_match (Opt (Cls ''vV'')) ?s [] = Some (?s, [])"
    using xs digits_no_marks [of x] by (intro regex_match_Opt_skip) simp
  have ep: "regex_match (Opt epoch_pattern) ?s [] = Some (?s, [])"
    unfolding epoch_pattern_def using nobang by (intro regex_match_Opt_skip rmatch_Seq_absent)
  have rel: "regex_match release_pattern ?s [] = Some ([], ?c)"
    using X Y Z by (rule release_three)
  have opt: "\<And>p. \<not> nullable p \<Longrightarrow> regex_match (Opt p) [] ?c = Some ([], ?c)"
    by (intro regex_match_Opt_skip rmatch_not_nullable)
  have ws2: "regex_match (Star (Cls whitespace)) [] ?c = Some ([], ?c)"
    by (rule regex_match_Star_stop) simp
  have "regex_match VERSION_PATTERN ?s [] = Some ([], ?c)"
    unfolding VERSION_PATTERN_def seqs_def foldr.simps o_apply id_apply
    by (intro regex_match_Seq [OF v] regex_match_Seq [OF ep] regex_match_Seq [OF rel]
              regex_match_Seq [OF opt] tail_not_nullable regex_match_Eps)
  then have "regex_match version_regex ?s [] = Some ([], ?c)"
    unfolding version_regex_def seqs_def foldr.simps o_apply id_apply
    by (intro regex_match_Seq [OF ws] regex_match_Seq [OF _ regex_match_Seq [OF ws2 regex_match_Eps]])
  then show ?thesis by (rule regex_search_full)
qed

lemma Version_three:
  assumes X: "isdigit X" and Y: "isdigit Y" and Z: "isdigit Z"
  shows "Version (X @ ''.'' @ Y @ ''.'' @ Z)
           = Inr \<lparr>v_epoch = 0, v_release = [py_int X, py_int Y, py_int Z], v_pre = None,
                  v_post = None, v_dev = None, v_local = None\<rparr>"
proof -
  have nodot: "CHR ''.'' \<notin> set X" "CHR ''.'' \<notin> set Y" "CHR ''.'' \<notin> set Z"
    using isdigit_set [OF X] isdigit_set [OF Y] isdigit_set [OF Z] digits_no_marks by auto
  have "split_on CHR ''.'' (X @ CHR ''.'' # Y @ CHR ''.'' # Z) = [X, Y, Z]"
    using nodot by (simp add: split_on_append split_on_single)
  then show ?thesis
    using version_regex_three [OF X Y Z]
    by (simp add: Version_def group_def parse_letter_version_def parse_local_version_def)
qed

section \<open>Decimal numbers and timestamps\<close>

lemma digit_table:
  "list_all (\<lambda>d. digit_char d \<in> set digits \<and> digit_val (digit_char d) = d) [0..<10]"
  by code_simp

lemma digit_char_digit: "d < 10 \<Longrightarrow> digit_char d \<in> set digits \<and> digit_val (digit_char d) = d"
  using digit_table by (simp add: list_all_iff)

lemma py_str_digits: "set (py_str n) \<subseteq> set digits"
proof (induction n rule: py_str.induct)
  case (1 n)
  show ?case
  proof (cases "n < 10")
    case True
    then show ?thesis using digit_char_digit [of n] by (subst py_str.simps) simp
  next
    case False
    then show ?thesis using 1 digit_char_digit [of "n mod 10"] by (subst py_str.simps) simp
  qed
qed

lemma decimal_py_str: "foldl (\<lambda>a ch. 10 * a + digit_val ch) 0 (py_str n) = n"
proof (induction n rule: py_str.induct)
  case (1 n)
  show ?case
  proof (cases "n < 10")
    case True
    then show ?thesis using digit_char_digit [of n] by (subst py_str.simps) simp
  next
    case False
    then show ?thesis using 1 digit_char_digit [of "n mod 10"] by (subst py_str.simps) simp
  qed
qed

lemma decimal_zeros:
  "foldl (\<lambda>a ch. 10 * a + digit_val ch) 0 (replicate j CHR ''0'' @ s)
     = foldl (\<lambda>a ch. 10 * a + digit_val ch) 0 s"
  by (induction j) (simp_all add: digit_val_def)

lemma py_int_digits:
  "set s \<subseteq> set digits \<Longrightarrow> py_int s = foldl (\<lambda>a ch. 10 * a + digit_val ch) 0 s"
  by (cases s) (auto simp: py_int_def digits_def)

lemma length_py_str: "0 < k \<Longrightarrow> n < 10 ^ k \<Longrightarrow> length (py_str n) \<le> k"
proof (induction k arbitrary: n)
  case 0
  then show ?case by simp
next
  case (Suc k)
  show ?case
  proof (cases "n < 10")
    case True
    then show ?thesis by (subst py_str.simps) simp
  next
    case False
    with Suc.prems have k: "0 < k" by (cases k) auto
    from Suc.prems have "n div 10 < 10 ^ k" by (simp add: less_mult_imp_div_less mult.commute)
    from Suc.IH [OF k this] False show ?thesis by (subst py_str.simps) simp
  qed
qed

lemma zero_pad_field:
  assumes "0 < k" and "n < 10 ^ k"
  shows "length (zero_pad k n) = k" and "set (zero_pad k n) \<subseteq> set digits"
    and "py_int (zero_pad k n) = n"
proof -
  show "length (zero_pad k n) = k"
    using length_py_str [OF assms] by (simp add: zero_pad_def)
  show d: "set (zero_pad k n) \<subseteq> set digits"
    using py_str_digits [of n] by (auto simp: zero_pad_def digits_def)
  show "py_int (zero_pad k n) = n"
    unfolding py_int_digits [OF d] by (simp only: zero_pad_def decimal_zeros decimal_py_str)
qed

lemma new_date_bounds:
  "new_date y m d = Inr dt \<Longrightarrow> y < 10 ^ 4 \<and> m < 10 ^ 2 \<and> d < 10 ^ 2 \<and>
     year dt = y \<and> month dt = m \<and> day dt = d"
  by (auto simp: new_date_def days_in_month_def split: if_splits)

lemma regex_match_Alt_right:
  "rmatch a s c = [] \<Longrightarrow> regex_match (Alt a b) s c = regex_match b s c"
  by (simp add: regex_match_def)

lemma rmatch_Seq_Cls_fails:
  "x \<notin> set cs \<Longrightarrow> rmatch (Seq (Cls cs) r) (x # xs) c = []"
  by simp

lemma digit_classes:
  "list_all (\<lambda>a. digit_char a \<in> set ''012345'' \<and> digit_char a \<noteq> CHR ''6'') [0..<6]"
  "list_all (\<lambda>a. digit_char a \<in> set ''0123'') [0..<4]"
  "list_all (\<lambda>a. digit_char a \<in> set ''012'') [0..<3]"
  "list_all (\<lambda>a. digit_char a \<in> set ''01'' \<and> digit_char a \<noteq> CHR ''2'') [0..<2]"
  "list_all (\<lambda>a. digit_char a \<in> set ''12'' \<and> digit_char a \<noteq> CHR ''3'') [1..<3]"
  "list_all (\<lambda>a. digit_char a \<in> set ''123456789'') [1..<10]"
  "digit_char 0 = CHR ''0''" "digit_char 1 = CHR ''1''" "digit_char 2 = CHR ''2''"
  "digit_char 3 = CHR ''3''" "digit_char (Suc 0) = CHR ''1''"
  by code_simp+

lemma digit_class_facts:
  "a < 6 \<Longrightarrow> digit_char a \<in> set ''012345'' \<and> digit_char a \<noteq> CHR ''6''"
  "a < 4 \<Longrightarrow> digit_char a \<in> set ''0123''"
  "a < 3 \<Longrightarrow> digit_char a \<in> set ''012''"
  "a < 2 \<Longrightarrow> digit_char a \<in> set ''01'' \<and> digit_char a \<noteq> CHR ''2''"
  "1 \<le> a \<Longrightarrow> a < 3 \<Longrightarrow> digit_char a \<in> set ''12'' \<and> digit_char a \<noteq> CHR ''3''"
  "1 \<le> a \<Longrightarrow> a < 10 \<Longrightarrow> digit_char a \<in> set ''123456789''"
  using digit_classes(1-6) by (simp_all add: list_all_iff)

lemma py_str_small: "n < 10 \<Longrightarrow> py_str n = [digit_char n]"
  by (subst py_str.simps) simp

lemma py_str_large: "10 \<le> n \<Longrightarrow> py_str n = py_str (n div 10) @ [digit_char (n mod 10)]"
  by (subst py_str.simps) simp

lemma two_digits: "n < 100 \<Longrightarrow> zero_pad 2 n = [digit_char (n div 10), digit_char (n mod 10)]"
proof (cases "n < 10")
  case True
  then show ?thesis by (simp add: zero_pad_def py_str_small digit_classes)
next
  case False
  assume "n < 100"
  with False have "n div 10 < 10" "10 \<le> n" by simp_all
  then show ?thesis by (simp add: zero_pad_def py_str_large py_str_small)
qed

lemma two_classes:
  "a \<in> set A \<Longrightarrow> b \<in> set B \<Longrightarrow> regex_match (Seq (Cls A) (Cls B)) (a # b # rest) c = Some (rest, c)"
  by (simp add: regex_match_def)

lemma capture_two:
  "regex_match r (a # b # rest) c = Some (rest, c)
   \<Longrightarrow> regex_match (Grp name r) (a # b # rest) c = Some (rest, (name, [a, b]) # c)"
  using regex_match_Grp [of r "a # b # rest" c "(rest, c)" name] by simp

lemma directive_Y_match:
  assumes "length ds = 4" and "set ds \<subseteq> set digits"
  shows "regex_match directive_Y (ds @ rest) c = Some (rest, (''Y'', ds) # c)"
proof -
  from assms(1) obtain d1 d2 d3 d4 where ds: "ds = [d1, d2, d3, d4]"
    by (auto simp: length_Suc_conv numeral_eq_Suc)
  with assms(2) have "regex_match (seqs [digit, digit, digit, digit]) (ds @ rest) c = Some (rest, c)"
    by (simp add: regex_match_def seqs_def digit_def)
  from regex_match_Grp [OF this, of "''Y''"] show ?thesis
    by (simp add: directive_Y_def ds)
qed

lemma directive_m_match:
  assumes "1 \<le> m" and "m \<le> 12"
  shows "regex_match directive_m (zero_pad 2 m @ rest) c = Some (rest, (''m'', zero_pad 2 m) # c)"
proof -
  let ?a = "digit_char (m div 10)" and ?b = "digit_char (m mod 10)"
  have z: "zero_pad 2 m = [?a, ?b]" using assms by (intro two_digits) simp
  have "regex_match (alts [Seq (Cls ''1'') (Cls ''012''), Seq (Cls ''0'') nonzero, nonzero])
          (?a # ?b # rest) c = Some (rest, c)"
  proof (cases "m < 10")
    case True
    then have a: "?a = CHR ''0''" by (simp add: digit_classes)
    have b: "?b \<in> set ''123456789''" using True assms by (intro digit_class_facts) simp_all
    show ?thesis unfolding a using b by (simp add: regex_match_def alts_def nonzero_def)
  next
    case False
    with assms have "m div 10 = 1" "m mod 10 < 3" by presburger+
    then have "?a = CHR ''1''" "?b \<in> set ''012''"
      using digit_class_facts(3) [of "m mod 10"] by (simp_all add: digit_classes)
    then show ?thesis by (simp add: regex_match_def alts_def)
  qed
  then show ?thesis unfolding z directive_m_def append_Cons append_Nil by (rule capture_two)
qed

lemma directive_d_match:
  assumes "1 \<le> d" and "d \<le> 31"
  shows "regex_match directive_d (zero_pad 2 d @ rest) c = Some (rest, (''d'', zero_pad 2 d) # c)"
proof -
  let ?a = "digit_char (d div 10)" and ?b = "digit_char (d mod 10)"
  have z: "zero_pad 2 d = [?a, ?b]" using assms by (intro two_digits) simp
  have bd: "?b \<in> set digits" using digit_char_digit [of "d mod 10"] by simp
  have "regex_match (alts [Seq (Cls ''3'') (Cls ''01''), Seq (Cls ''12'') digit,
                           Seq (Cls ''0'') nonzero, nonzero, Seq (Cls '' '') nonzero])
          (?a # ?b # rest) c = Some (rest, c)"
  proof -
    consider "d < 10" | "10 \<le> d" "d < 30" | "30 \<le> d" by linarith
    then show ?thesis
    proof cases
      case 1
      then have a: "?a = CHR ''0''" by (simp add: digit_classes)
      have b: "?b \<in> set ''123456789''" using 1 assms by (intro digit_class_facts) simp_all
      show ?thesis unfolding a using b by (simp add: regex_match_def alts_def nonzero_def)
    next
      case 2
      then have "1 \<le> d div 10" "d div 10 < 3" by simp_all
      then have "?a \<in> set ''12'' \<and> ?a \<noteq> CHR ''3''" by (rule digit_class_facts)
      then show ?thesis using bd by (simp add: regex_match_def alts_def digit_def)
    next
      case 3
      with assms have "d div 10 = 3" "d mod 10 < 2" by presburger+
      then have "?a = CHR ''3''" "?b \<in> set ''01''"
        using digit_class_facts(4) [of "d mod 10"] by (simp_all add: digit_classes)
      then show ?thesis by (simp add: regex_match_def alts_def)
    qed
  qed
  then show ?thesis unfolding z directive_d_def append_Cons append_Nil by (rule capture_two)
qed

lemma directive_H_match:
  assumes "h \<le> 23"
  shows "regex_match directive_H (zero_pad 2 h @ rest) c = Some (rest, (''H'', zero_pad 2 h) # c)"
proof -
  let ?a = "digit_char (h div 10)" and ?b = "digit_char (h mod 10)"
  have z: "zero_pad 2 h = [?a, ?b]" using assms by (intro two_digits) simp
  have bd: "?b \<in> set digits" using digit_char_digit [of "h mod 10"] by simp
  have "regex_match (alts [Seq (Cls ''2'') (Cls ''0123''), Seq (Cls ''01'') digit, digit])
          (?a # ?b # rest) c = Some (rest, c)"
  proof (cases "h < 20")
    case True
    then have "h div 10 < 2" by simp
    then have "?a \<in> set ''01'' \<and> ?a \<noteq> CHR ''2''" by (rule digit_class_facts)
    then show ?thesis using bd by (simp add: regex_match_def alts_def digit_def)
  next
    case False
    with assms have "h div 10 = 2" "h mod 10 < 4" by presburger+
    then have "?a = CHR ''2''" "?b \<in> set ''0123''"
      using digit_class_facts(2) [of "h mod 10"] by (simp_all add: digit_classes)
    then show ?thesis by (simp add: regex_match_def alts_def)
  qed
  then show ?thesis unfolding z directive_H_def append_Cons append_Nil by (rule capture_two)
qed

lemma directive_M_match:
  assumes "mi \<le> 59"
  shows "regex_match directive_M (zero_pad 2 mi @ rest) c = Some (rest, (''M'', zero_pad 2 mi) # c)"
proof -
  let ?a = "digit_char (mi div 10)" and ?b = "digit_char (mi mod 10)"
  have z: "zero_pad 2 mi = [?a, ?b]" using assms by (intro two_digits) simp
  have bd: "?b \<in> set digits" using digit_char_digit [of "mi mod 10"] by simp
  from assms have "mi div 10 < 6" by simp
  then have "?a \<in> set ''012345'' \<and> ?a \<noteq> CHR ''6''" by (rule digit_class_facts)
  then have "regex_match (alts [Seq (Cls ''012345'') digit, digit]) (?a # ?b # rest) c
               = Some (rest, c)"
    using bd by (simp add: regex_match_def alts_def digit_def)
  then show ?thesis unfolding z directive_M_def append_Cons append_Nil by (rule capture_two)
qed

lemma directive_S_match:
  assumes "s \<le> 59"
  shows "regex_match directive_S (zero_pad 2 s @ rest) c = Some (rest, (''S'', zero_pad 2 s) # c)"
proof -
  let ?a = "digit_char (s div 10)" and ?b = "digit_char (s mod 10)"
  have z: "zero_pad 2 s = [?a, ?b]" using assms by (intro two_digits) simp
  have bd: "?b \<in> set digits" using digit_char_digit [of "s mod 10"] by simp
  from assms have "s div 10 < 6" by simp
  then have "?a \<in> set ''012345'' \<and> ?a \<noteq> CHR ''6''" by (rule digit_class_facts)
  then have "regex_match (alts [Seq (Cls ''6'') (Cls ''01''), Seq (Cls ''012345'') digit, digit])
               (?a # ?b # rest) c = Some (rest, c)"
    using bd by (simp add: regex_match_def alts_def digit_def)
  then show ?thesis unfolding z directive_S_def append_Cons append_Nil by (rule capture_two)
qed

lemma literal_marks:
  "lit_i ''-'' = Seq (Cls ''-'') Eps" "lit_i '':'' = Seq (Cls '':'') Eps"
  "lit_i ''T'' = Seq (Cls ''tT'') Eps" "lit_i ''Z'' = Seq (Cls ''zZ'') Eps"
  by code_simp+

lemma regex_match_mark:
  "x \<in> set cs \<Longrightarrow> regex_match (Seq (Cls cs) Eps) (x # rest) c = Some (rest, c)"
  by (simp add: regex_match_def)

lemma timestamp_format_match:
  assumes "new_date y m d = Inr dt" "h \<le> 23" "mi \<le> 59" "s \<le> 59"
  shows "regex_match timestamp_format (timestamp_text dt h mi s) []
           = Some ([], [(''S'', zero_pad 2 s), (''M'', zero_pad 2 mi), (''H'', zero_pad 2 h),
                        (''d'', zero_pad 2 d), (''m'', zero_pad 2 m), (''Y'', zero_pad 4 y)])"
proof -
  note b = new_date_bounds [OF assms(1)]
  have r: "1 \<le> m" "m \<le> 12" "1 \<le> d" "d \<le> 31"
    using assms(1) by (auto simp: new_date_def days_in_month_def split: if_splits)
  have y4: "length (zero_pad 4 y) = 4" "set (zero_pad 4 y) \<subseteq> set digits"
    using b by (simp_all add: zero_pad_field)
  have spelled: "timestamp_text dt h mi s
      = zero_pad 4 y @ CHR ''-'' # zero_pad 2 m @ CHR ''-'' # zero_pad 2 d @ CHR ''T'' #
        zero_pad 2 h @ CHR '':'' # zero_pad 2 mi @ CHR '':'' # zero_pad 2 s @ CHR ''Z'' # []"
    using b by (simp add: timestamp_text_def isoformat_def)
  show ?thesis
    unfolding spelled timestamp_format_def seqs_def foldr.simps o_apply id_apply literal_marks
    by (intro regex_match_Seq [OF directive_Y_match [OF y4]]
              regex_match_Seq [OF directive_m_match [OF r(1,2)]]
              regex_match_Seq [OF directive_d_match [OF r(3,4)]]
              regex_match_Seq [OF directive_H_match [OF assms(2)]]
              regex_match_Seq [OF directive_M_match [OF assms(3)]]
              regex_match_Seq [OF directive_S_match [OF assms(4)]]
              regex_match_Seq [OF regex_match_mark]
              regex_match_Eps) simp_all
qed

lemma strptime_timestamp_canonical:
  assumes "new_date y m d = Inr dt" "h \<le> 23" "mi \<le> 59" "s \<le> 59"
  shows "strptime_timestamp (JStr (timestamp_text dt h mi s))
           = Inr \<lparr>the_date = dt, hour = h, minute = mi, second = s\<rparr>"
proof -
  note b = new_date_bounds [OF assms(1)]
  have f: "py_int (zero_pad 4 y) = y" "py_int (zero_pad 2 m) = m" "py_int (zero_pad 2 d) = d"
    "py_int (zero_pad 2 h) = h" "py_int (zero_pad 2 mi) = mi" "py_int (zero_pad 2 s) = s"
    using b assms(2-4) by (simp_all add: zero_pad_field)
  show ?thesis
    using assms
    by (simp add: strptime_timestamp_def strptime_fields_def timestamp_format_match [OF assms]
                  field_def group_def f new_datetime_def)
qed

section \<open>The filter\<close>

lemma Version_raises: "Version s = Inl e \<Longrightarrow> e = InvalidVersion"
  by (auto simp: Version_def split: option.splits)

lemma extract_version_never_raises: "extract_version tag_name package_name \<noteq> Inl e"
  by (auto simp: extract_version_def Let_def dest: Version_raises
           split: option.splits sum.splits if_splits)

lemma subscript_raises: "subscript v key = Inl e \<Longrightarrow> is_Exception e"
  by (cases v) (auto split: option.splits)

lemma strptime_timestamp_raises: "strptime_timestamp v = Inl e \<Longrightarrow> is_Exception e"
  by (auto simp: strptime_timestamp_def strptime_fields_def new_date_def new_datetime_def
           split: jval.splits sum.splits option.splits if_splits)

lemma process_release_raises:
  "process_release start_date package_name include_prereleases release = Inl e \<Longrightarrow> is_Exception e"
  unfolding process_release_def
  by (auto dest: subscript_raises strptime_timestamp_raises
           simp: extract_version_never_raises
           split: sum.splits option.splits jval.splits if_splits)

lemma filter_loop_selected:
  "filter_loop start_date package_name include_prereleases releases filtered
     = Inr (filtered @ concat (map (selected start_date package_name include_prereleases) releases))"
proof (induction releases arbitrary: filtered)
  case Nil
  then show ?case by simp
next
  case (Cons release rest)
  show ?case
  proof (cases "process_release start_date package_name include_prereleases release")
    case (Inl e)
    then have "is_Exception e" by (rule process_release_raises)
    with Inl show ?thesis by (simp add: Cons.IH selected_def)
  next
    case (Inr r)
    then show ?thesis by (cases r) (simp_all add: Cons.IH selected_def)
  qed
qed

lemma filter_releases_selected:
  "filter_releases releases start_date package_name include_prereleases
     = Inr (concat (map (selected start_date package_name include_prereleases) releases))"
  by (simp add: filter_releases_def filter_loop_selected)

lemma date_lt_irrefl: "\<not> date_lt d d"
  by (simp add: date_lt_def)

lemma selected_entry:
  "selected start_date package_name include_prereleases release = [] \<or>
   (\<exists>p. selected start_date package_name include_prereleases release = [p] \<and>
        release_entry release = Some p)"
  unfolding selected_def process_release_def release_entry_def
  by (auto split: sum.splits option.splits jval.splits if_splits)

lemma scenario_filter:
  "filter_releases scenario_releases \<lparr>year = 2024, month = 1, day = 1\<rparr> None False
     = Inr [(''v1.2.0'', \<lparr>year = 2024, month = 2, day = 1\<rparr>)]"
  by code_simp

text \<open>
  C1. For the three releases of the scenario (\<^verbatim>\<open>v1.2.0\<close> published 2024-02-01,
  \<^verbatim>\<open>v1.3.0-beta\<close> published 2024-03-01, \<^verbatim>\<open>v0.9.0\<close> published 2023-12-01), the start
  date 2024-01-01, no package filter and prereleases excluded, \<^verbatim>\<open>filter_releases\<close>
  returns exactly the pair of \<^verbatim>\<open>v1.2.0\<close> and 2024-02-01, and the line written for it
  is \<^verbatim>\<open>v1.2.0, 2024-02-01\<close>.
\<close>

theorem scenario_single_release:
  "strptime_date ''2024-01-01'' = Inr \<lparr>year = 2024, month = 1, day = 1\<rparr> \<and>
   filter_releases scenario_releases \<lparr>year = 2024, month = 1, day = 1\<rparr> None False
     = Inr [(''v1.2.0'', \<lparr>year = 2024, month = 2, day = 1\<rparr>)] \<and>
   map entry_line [(''v1.2.0'', \<lparr>year = 2024, month = 2, day = 1\<rparr>)]
     = [''v1.2.0, 2024-02-01'' @ [CHR 0x0A]]"
proof -
  have "strptime_date ''2024-01-01'' = Inr \<lparr>year = 2024, month = 1, day = 1\<rparr>"
    by code_simp
  moreover have "map entry_line [(''v1.2.0'', \<lparr>year = 2024, month = 2, day = 1\<rparr>)]
                   = [''v1.2.0, 2024-02-01'' @ [CHR 0x0A]]"
    by code_simp
  ultimately show ?thesis using scenario_filter by simp
qed

text \<open>
  C2. For a release whose \<^verbatim>\<open>published_at\<close> parses, the date test excludes it exactly
  when the parsed calendar date is strictly before the start date: a release before
  the start date adds nothing to the result whatever its tag is, and a release on or
  after it goes on to the version tests, which alone decide. A date equal to the start
  date is not before it. The parsed date is the one the timestamp spells: for a
  timestamp \<^verbatim>\<open>YYYY-MM-DDTHH:MM:SSZ\<close> of a calendar date and a time of day it is that
  date.
\<close>

theorem date_test_inclusive:
  assumes "subscript release ''published_at'' = Inr v" and "strptime_timestamp v = Inr dt"
  shows "filter_releases [release] start_date package_name include_prereleases =
           (if date_lt (the_date dt) start_date then Inr []
            else (case subscript release ''tag_name'' of
                    Inr (JStr tag_name) \<Rightarrow>
                      (case extract_version tag_name package_name of
                         Inr (Some ver) \<Rightarrow>
                           if \<not> include_prereleases \<and> is_prerelease ver then Inr []
                           else Inr [(tag_name, the_date dt)]
                       | _ \<Rightarrow> Inr [])
                  | _ \<Rightarrow> Inr []))
         \<and> (date_lt (the_date dt) start_date \<longrightarrow>
              filter_releases (before @ release # after) start_date package_name include_prereleases
                = filter_releases (before @ after) start_date package_name include_prereleases)
         \<and> (the_date dt = start_date \<longrightarrow> \<not> date_lt (the_date dt) start_date)
         \<and> (new_date y m d = Inr published \<and> h \<le> 23 \<and> mi \<le> 59 \<and> s \<le> 59 \<and>
              v = JStr (timestamp_text published h mi s) \<longrightarrow> the_date dt = published)"
proof -
  have sel: "date_lt (the_date dt) start_date \<Longrightarrow>
             selected start_date package_name include_prereleases release = []"
    using assms by (auto simp: selected_def process_release_def split: sum.splits)
  have one: "filter_releases [release] start_date package_name include_prereleases
               = Inr (selected start_date package_name include_prereleases release)"
    by (simp add: filter_releases_selected)
  have "\<not> date_lt (the_date dt) start_date \<Longrightarrow>
        Inr (selected start_date package_name include_prereleases release) =
          (case subscript release ''tag_name'' of
             Inr (JStr tag_name) \<Rightarrow>
               (case extract_version tag_name package_name of
                  Inr (Some ver) \<Rightarrow>
                    if \<not> include_prereleases \<and> is_prerelease ver then Inr []
                    else Inr [(tag_name, the_date dt)]
                | _ \<Rightarrow> Inr [])
           | _ \<Rightarrow> (Inr [] :: exn + (string \<times> date) list))"
    using assms
    by (auto simp: selected_def process_release_def split: sum.splits option.splits jval.splits)
  moreover have "the_date dt = published"
    if "new_date y m d = Inr published \<and> h \<le> 23 \<and> mi \<le> 59 \<and> s \<le> 59 \<and>
        v = JStr (timestamp_text published h mi s)"
    using that assms(2) strptime_timestamp_canonical [of y m d published h mi s] by auto
  ultimately show ?thesis using sel one
    by (simp add: filter_releases_selected date_lt_irrefl)
qed

theorem date_test_inclusive_witness:
  "filter_releases [release_record ''v1.2.0'' ''2024-01-01T23:59:59Z'']
       \<lparr>year = 2024, month = 1, day = 1\<rparr> None False
     = Inr [(''v1.2.0'', \<lparr>year = 2024, month = 1, day = 1\<rparr>)] \<and>
   filter_releases [release_record ''v1.2.0'' ''2023-12-31T23:59:59Z'']
       \<lparr>year = 2024, month = 1, day = 1\<rparr> None False
     = Inr [] \<and>
   timestamp_text \<lparr>year = 2024, month = 1, day = 1\<rparr> 23 59 59 = ''2024-01-01T23:59:59Z''"
proof -
  let ?start = "\<lparr>year = 2024, month = 1, day = 1\<rparr>"
  let ?on = "release_record ''v1.2.0'' ''2024-01-01T23:59:59Z''"
  let ?before = "release_record ''v1.2.0'' ''2023-12-31T23:59:59Z''"
  have p1: "subscript ?on ''published_at'' = Inr (JStr ''2024-01-01T23:59:59Z'')"
    by code_simp
  have t1: "strptime_timestamp (JStr ''2024-01-01T23:59:59Z'')
              = Inr \<lparr>the_date = ?start, hour = 23, minute = 59, second = 59\<rparr>"
    by code_simp
  have g1: "subscript ?on ''tag_name'' = Inr (JStr ''v1.2.0'')" by code_simp
  have v1: "extract_version ''v1.2.0'' None
              = Inr (Some \<lparr>v_epoch = 0, v_release = [1, 2, 0], v_pre = None, v_post = None,
                             v_dev = None, v_local = None\<rparr>)"
    by code_simp
  have p2: "subscript ?before ''published_at'' = Inr (JStr ''2023-12-31T23:59:59Z'')"
    by code_simp
  have t2: "strptime_timestamp (JStr ''2023-12-31T23:59:59Z'')
              = Inr \<lparr>the_date = \<lparr>year = 2023, month = 12, day = 31\<rparr>,
                     hour = 23, minute = 59, second = 59\<rparr>"
    by code_simp
  from date_test_inclusive [OF p1 t1, of ?start None False "[]" "[]"]
  have "filter_releases [?on] ?start None False = Inr [(''v1.2.0'', ?start)]"
    by (simp add: g1 v1 date_lt_def is_prerelease_def)
  moreover from date_test_inclusive [OF p2 t2, of ?start None False "[]" "[]"]
  have "filter_releases [?before] ?start None False = Inr []"
    by (simp add: date_lt_def)
  moreover have "timestamp_text ?start 23 59 59 = ''2024-01-01T23:59:59Z''" by code_simp
  ultimately show ?thesis by simp
qed

text \<open>
  C7. \<^verbatim>\<open>filter_releases\<close> never raises: it returns a list for every input. A record
  whose processing raises (such as one without \<^verbatim>\<open>published_at\<close>, or with one that does
  not parse) is skipped, and the result is the result for the input without that
  record.
\<close>

theorem faulty_record_skipped:
  "(\<exists>out. filter_releases releases start_date package_name include_prereleases = Inr out) \<and>
   (process_release start_date package_name include_prereleases release = Inl e \<longrightarrow>
      filter_releases (before @ release # after) start_date package_name include_prereleases
        = filter_releases (before @ after) start_date package_name include_prereleases) \<and>
   (subscript release ''published_at'' = Inl e \<longrightarrow>
      process_release start_date package_name include_prereleases release = Inl e) \<and>
   (subscript release ''published_at'' = Inr v \<and> strptime_timestamp v = Inl e \<longrightarrow>
      process_release start_date package_name include_prereleases release = Inl e)"
  by (auto simp: filter_releases_selected selected_def process_release_def)

theorem faulty_record_skipped_witness:
  "filter_releases
       (release_record ''v1.2.0'' ''2024-02-01T00:00:00Z''
          # JObj [(''tag_name'', JStr ''v1.4.0'')]
          # JObj [(''tag_name'', JStr ''v1.5.0''), (''published_at'', JNull)]
          # [release_record ''v1.3.0'' ''2024-03-01T00:00:00Z''])
       \<lparr>year = 2024, month = 1, day = 1\<rparr> None False
     = Inr [(''v1.2.0'', \<lparr>year = 2024, month = 2, day = 1\<rparr>),
            (''v1.3.0'', \<lparr>year = 2024, month = 3, day = 1\<rparr>)]"
proof -
  let ?start = "\<lparr>year = 2024, month = 1, day = 1\<rparr>"
  let ?a = "release_record ''v1.2.0'' ''2024-02-01T00:00:00Z''"
  let ?b = "release_record ''v1.3.0'' ''2024-03-01T00:00:00Z''"
  let ?missing = "JObj [(''tag_name'', JStr ''v1.4.0'')]"
  let ?null = "JObj [(''tag_name'', JStr ''v1.5.0''), (''published_at'', JNull)]"
  have m: "subscript ?missing ''published_at'' = Inl KeyError" by code_simp
  have n: "subscript ?null ''published_at'' = Inr JNull \<and> strptime_timestamp JNull = Inl TypeError"
    by code_simp
  have good: "filter_releases [?a, ?b] ?start None False
                = Inr [(''v1.2.0'', \<lparr>year = 2024, month = 2, day = 1\<rparr>),
                       (''v1.3.0'', \<lparr>year = 2024, month = 3, day = 1\<rparr>)]"
    by code_simp
  from faulty_record_skipped [of "[]" ?start None False ?missing KeyError "[?a]" "[?null, ?b]" JNull]
  have "filter_releases [?a, ?missing, ?null, ?b] ?start None False
          = filter_releases [?a, ?null, ?b] ?start None False"
    using m by simp
  also from faulty_record_skipped [of "[]" ?start None False ?null TypeError "[?a]" "[?b]" JNull]
  have "\<dots> = filter_releases [?a, ?b] ?start None False"
    using n by simp
  finally show ?thesis using good by simp
qed

lemma scenario_with_prereleases:
  "filter_releases scenario_releases \<lparr>year = 2024, month = 1, day = 1\<rparr> None True
     = Inr [(''v1.2.0'', \<lparr>year = 2024, month = 2, day = 1\<rparr>),
            (''v1.3.0-beta'', \<lparr>year = 2024, month = 3, day = 1\<rparr>)]"
  by code_simp

text \<open>
  C9. The result of \<^verbatim>\<open>filter_releases\<close> is read off a subsequence of its input: there
  are releases of the input, at increasing positions, whose pairs of tag and
  publication date are the result, in this order. For the scenario with prereleases
  included the result is \<^verbatim>\<open>v1.2.0\<close> and then \<^verbatim>\<open>v1.3.0-beta\<close>.
\<close>

theorem filter_preserves_order:
  "(\<exists>ks out. subseq ks releases \<and>
      filter_releases releases start_date package_name include_prereleases = Inr out \<and>
      map release_entry ks = map Some out) \<and>
   filter_releases scenario_releases \<lparr>year = 2024, month = 1, day = 1\<rparr> None True
     = Inr [(''v1.2.0'', \<lparr>year = 2024, month = 2, day = 1\<rparr>),
            (''v1.3.0-beta'', \<lparr>year = 2024, month = 3, day = 1\<rparr>)]"
proof -
  let ?sel = "selected start_date package_name include_prereleases"
  have "\<exists>ks. subseq ks releases \<and> map release_entry ks = map Some (concat (map ?sel releases))"
  proof (induction releases)
    case Nil
    then show ?case by simp
  next
    case (Cons r rs)
    then obtain ks where ks: "subseq ks rs"
      "map release_entry ks = map Some (concat (map ?sel rs))" by blast
    from selected_entry [of start_date package_name include_prereleases r]
    show ?case
    proof
      assume "?sel r = []"
      with ks show ?thesis by (intro exI [of _ ks]) (simp add: list_emb_Cons)
    next
      assume "\<exists>p. ?sel r = [p] \<and> release_entry r = Some p"
      with ks show ?thesis by (intro exI [of _ "r # ks"]) auto
    qed
  qed
  then show ?thesis using scenario_with_prereleases by (auto simp: filter_releases_selected)
qed

section \<open>The version extractor\<close>

text \<open>
  C3, as amended. When a non-empty package name is given, every tag
  \<^verbatim>\<open>pkg==vX.Y.Z\<close> with decimal numbers \<open>X\<close>, \<open>Y\<close>, \<open>Z\<close> yields the version with the
  release numbers \<open>X\<close>, \<open>Y\<close>, \<open>Z\<close> and nothing else, and every tag that does not start
  with \<^verbatim>\<open>pkg==\<close> yields no version, without an error. (As the claim was written it also
  covered the empty package name, which the code treats as no filter at all: see the
  counterexample.)
\<close>

theorem extract_version_package_prefix:
  assumes "package_name \<noteq> []"
  shows "(isdigit X \<and> isdigit Y \<and> isdigit Z \<longrightarrow>
            extract_version (package_name @ ''==v'' @ X @ ''.'' @ Y @ ''.'' @ Z) (Some package_name)
              = Inr (Some \<lparr>v_epoch = 0, v_release = [py_int X, py_int Y, py_int Z],
                             v_pre = None, v_post = None, v_dev = None, v_local = None\<rparr>))
       \<and> (\<not> startswith tag_name (package_name @ ''=='') \<longrightarrow>
            extract_version tag_name (Some package_name) = Inr None)"
proof (intro conjI impI)
  assume d: "isdigit X \<and> isdigit Y \<and> isdigit Z"
  let ?tag = "package_name @ ''==v'' @ X @ ''.'' @ Y @ ''.'' @ Z"
  have pre: "startswith ?tag (package_name @ ''=='')" by (simp add: startswith_def)
  have rest: "drop (length (package_name @ ''=='')) ?tag = CHR ''v'' # X @ ''.'' @ Y @ ''.'' @ Z"
    by simp
  have "Version (X @ ''.'' @ Y @ ''.'' @ Z)
          = Inr \<lparr>v_epoch = 0, v_release = [py_int X, py_int Y, py_int Z], v_pre = None,
                 v_post = None, v_dev = None, v_local = None\<rparr>"
    using d by (intro Version_three) simp_all
  then show "extract_version ?tag (Some package_name)
      = Inr (Some \<lparr>v_epoch = 0, v_release = [py_int X, py_int Y, py_int Z],
                     v_pre = None, v_post = None, v_dev = None, v_local = None\<rparr>)"
    unfolding extract_version_def using assms pre
    by (simp only: truthy.simps Let_def option.sel if_True rest) (simp add: startswith_def)
next
  assume "\<not> startswith tag_name (package_name @ ''=='')"
  then show "extract_version tag_name (Some package_name) = Inr None"
    using assms by (simp add: extract_version_def)
qed

theorem extract_version_package_prefix_witness:
  "extract_version ''widget==v1.20.3'' (Some ''widget'')
     = Inr (Some \<lparr>v_epoch = 0, v_release = [1, 20, 3], v_pre = None, v_post = None,
                    v_dev = None, v_local = None\<rparr>) \<and>
   extract_version ''other==1.0.0'' (Some ''widget'') = Inr None"
proof -
  have d: "isdigit ''1'' \<and> isdigit ''20'' \<and> isdigit ''3''" by code_simp
  have n: "py_int ''1'' = 1" "py_int ''20'' = 20" "py_int ''3'' = 3" by code_simp+
  have s: "\<not> startswith ''other==1.0.0'' (''widget'' @ ''=='')" by code_simp
  from extract_version_package_prefix [of "''widget''" "''1''" "''20''" "''3''" "''other==1.0.0''"]
  show ?thesis using d s by (simp add: n)
qed

theorem empty_package_name_counterexample:
  "\<not> startswith ''1.0.0'' ('''' @ ''=='') \<and>
   extract_version ''1.0.0'' (Some '''')
     = Inr (Some \<lparr>v_epoch = 0, v_release = [1, 0, 0], v_pre = None, v_post = None,
                    v_dev = None, v_local = None\<rparr>) \<and>
   extract_version ('''' @ ''==v1.2.3'') (Some '''') = Inr None"
  by code_simp

lemma pep440_examples:
  "map prerelease_flag [''1.0.0-alpha'', ''2.3.0-rc1'', ''1.0.0-beta.1'', ''1.2.3'']
     = [Some True, Some True, Some True, Some False] \<and>
   semver_prerelease ''1.0.0-1'' \<and> prerelease_flag ''1.0.0-1'' = Some False \<and>
   semver_prerelease ''1.0.0-x.7.z.92'' \<and> prerelease_flag ''1.0.0-x.7.z.92'' = None \<and>
   filter_releases [release_record ''1.0.0-1'' ''2024-02-01T00:00:00Z'']
       \<lparr>year = 2024, month = 1, day = 1\<rparr> None False
     = Inr [(''1.0.0-1'', \<lparr>year = 2024, month = 2, day = 1\<rparr>)]"
  by code_simp

lemma plain_version_flag:
  assumes "isdigit X" "isdigit Y" "isdigit Z"
  shows "prerelease_flag (X @ ''.'' @ Y @ ''.'' @ Z) = Some False"
proof -
  from isdigit_set [OF assms(1)] obtain x xs where "X = x # xs" "x \<in> set digits"
    by (cases X) auto
  then have "\<not> startswith (X @ ''.'' @ Y @ ''.'' @ Z) ''v''"
    using digits_no_marks [of x] by (auto simp: startswith_def)
  then show ?thesis
    using Version_three [OF assms]
    by (simp add: prerelease_flag_def extract_version_def is_prerelease_def)
qed

text \<open>
  C4. The claim is that prerelease classification follows semantic versioning: every
  version with a pre-release segment is a prerelease, every plain
  \<^verbatim>\<open>MAJOR.MINOR.PATCH\<close> is not. The code classifies with \<^verbatim>\<open>packaging.version\<close>, whose
  grammar is PEP 440. The two agree on the examples of the claim, and every plain
  version of three numbers is classified as not a prerelease; they differ on
  \<^verbatim>\<open>1.0.0-1\<close>, a pre-release for semantic versioning and a post-release (so not a
  prerelease) for the code, which keeps the release when prereleases are excluded, and
  on \<^verbatim>\<open>1.0.0-x.7.z.92\<close>, a pre-release for semantic versioning for which the code finds
  no version at all.
\<close>

theorem prerelease_by_pep440:
  "map prerelease_flag [''1.0.0-alpha'', ''2.3.0-rc1'', ''1.0.0-beta.1'', ''1.2.3'']
     = [Some True, Some True, Some True, Some False] \<and>
   semver_prerelease ''1.0.0-1'' \<and> prerelease_flag ''1.0.0-1'' = Some False \<and>
   semver_prerelease ''1.0.0-x.7.z.92'' \<and> prerelease_flag ''1.0.0-x.7.z.92'' = None \<and>
   filter_releases [release_record ''1.0.0-1'' ''2024-02-01T00:00:00Z'']
       \<lparr>year = 2024, month = 1, day = 1\<rparr> None False
     = Inr [(''1.0.0-1'', \<lparr>year = 2024, month = 2, day = 1\<rparr>)] \<and>
   (isdigit X \<and> isdigit Y \<and> isdigit Z \<longrightarrow>
      prerelease_flag (X @ ''.'' @ Y @ ''.'' @ Z) = Some False)"
  using pep440_examples plain_version_flag [of X Y Z] by blast

theorem prerelease_by_pep440_witness:
  "isdigit ''10'' \<and> isdigit ''20'' \<and> isdigit ''30'' \<and> prerelease_flag ''10.20.30'' = Some False"
proof -
  have d: "isdigit ''10'' \<and> isdigit ''20'' \<and> isdigit ''30''" by code_simp
  with prerelease_by_pep440 [of "''10''" "''20''" "''30''"]
  have "prerelease_flag (''10'' @ ''.'' @ ''20'' @ ''.'' @ ''30'') = Some False" by blast
  with d show ?thesis by simp
qed

section \<open>The URL parser\<close>

lemma split_on_first:
  "ch \<in> set s \<Longrightarrow> \<exists>a b. s = a @ ch # b \<and> ch \<notin> set a \<and> split_on ch s = a # split_on ch b"
  using split_list_first [of ch s] by (auto simp: split_on_append)

lemma split_on_head:
  "\<exists>a rest. split_on ch s = a # rest \<and> ch \<notin> set a \<and>
      (\<exists>t. s = a @ t \<and> (t = [] \<or> hd t = ch))"
proof (cases "ch \<in> set s")
  case True
  then show ?thesis using split_on_first [of ch s] by auto
next
  case False
  then show ?thesis by (simp add: split_on_single)
qed

lemma hd_rev_dropWhile_rev:
  assumes "rev (dropWhile P (rev t)) \<noteq> []"
  shows "hd (rev (dropWhile P (rev t))) = hd t"
proof -
  define a where "a = rev (dropWhile P (rev t))"
  define b where "b = rev (takeWhile P (rev t))"
  have "rev (takeWhile P (rev t) @ dropWhile P (rev t)) = t" by simp
  then have "t = a @ b" unfolding a_def b_def by (simp only: rev_append)
  moreover have "a \<noteq> []" using assms unfolding a_def .
  ultimately have "hd t = hd a" by (metis hd_append2)
  then show ?thesis by (simp only: a_def)
qed

lemma strip_char_ends:
  assumes ne: "strip_char ch s \<noteq> []"
  shows "hd (strip_char ch s) \<noteq> ch \<and> last (strip_char ch s) \<noteq> ch"
proof -
  let ?P = "\<lambda>x. x = ch"
  let ?t = "dropWhile ?P s"
  let ?u = "dropWhile ?P (rev ?t)"
  have u: "?u \<noteq> []" using ne by (simp add: strip_char_def)
  then have "\<not> ?P (hd ?u)" by (rule hd_dropWhile)
  then have l: "last (strip_char ch s) \<noteq> ch" using u by (simp add: strip_char_def last_rev)
  have t: "?t \<noteq> []"
  proof
    assume e: "?t = []"
    show False using u unfolding e by simp
  qed
  then have ht: "hd ?t \<noteq> ch" using hd_dropWhile [of ?P s] by simp
  have "hd (strip_char ch s) = hd ?t"
    unfolding strip_char_def using ne [unfolded strip_char_def] by (rule hd_rev_dropWhile_rev)
  with ht l show ?thesis by simp
qed

text \<open>
  C5, as amended. \<^verbatim>\<open>parse_github_url\<close> fails (with \<^verbatim>\<open>sys.exit(1)\<close>) when the URL
  cannot be parsed and when its path, without the slashes at its two ends, holds no
  slash, that is fewer than two segments. Otherwise it returns the first two segments
  of that path: the path is \<open>owner/repo\<close> followed by nothing or by a slash, neither
  part holds a slash, and the owner is not empty. The repository name is not empty
  either unless the owner is followed by two slashes. (As the claim was written both
  parts were never empty: see the counterexample.)
\<close>

theorem parse_github_url_segments:
  "(urlparse_path repo_url = Inl e \<and> is_Exception e \<longrightarrow>
      parse_github_url urlparse_path repo_url = Inl (SystemExit 1)) \<and>
   (urlparse_path repo_url = Inr path \<and> CHR ''/'' \<notin> set (strip_char CHR ''/'' path) \<longrightarrow>
      parse_github_url urlparse_path repo_url = Inl (SystemExit 1)) \<and>
   (urlparse_path repo_url = Inr path \<and> CHR ''/'' \<in> set (strip_char CHR ''/'' path) \<longrightarrow>
      (\<exists>owner repo rest.
         parse_github_url urlparse_path repo_url = Inr (owner, repo) \<and>
         strip_char CHR ''/'' path = owner @ ''/'' @ repo @ rest \<and>
         owner \<noteq> [] \<and> CHR ''/'' \<notin> set owner \<and> CHR ''/'' \<notin> set repo \<and>
         (rest = [] \<or> hd rest = CHR ''/'') \<and> (repo = [] \<longrightarrow> rest \<noteq> [])))"
proof (intro conjI impI)
  assume "urlparse_path repo_url = Inl e \<and> is_Exception e"
  then show "parse_github_url urlparse_path repo_url = Inl (SystemExit 1)"
    by (simp add: parse_github_url_def)
next
  assume "urlparse_path repo_url = Inr path \<and> CHR ''/'' \<notin> set (strip_char CHR ''/'' path)"
  then show "parse_github_url urlparse_path repo_url = Inl (SystemExit 1)"
    by (simp add: parse_github_url_def split_on_single)
next
  let ?p = "strip_char CHR ''/'' path"
  assume a: "urlparse_path repo_url = Inr path \<and> CHR ''/'' \<in> set ?p"
  then obtain owner b where ob: "?p = owner @ CHR ''/'' # b" "CHR ''/'' \<notin> set owner"
    "split_on CHR ''/'' ?p = owner # split_on CHR ''/'' b"
    using split_on_first [of "CHR ''/''" ?p] by blast
  obtain repo more rest where rp: "split_on CHR ''/'' b = repo # more" "CHR ''/'' \<notin> set repo"
    "b = repo @ rest" "rest = [] \<or> hd rest = CHR ''/''"
    using split_on_head [of "CHR ''/''" b] by blast
  have ne: "?p \<noteq> []" using ob(1) by simp
  from strip_char_ends [OF ne] have ends: "hd ?p \<noteq> CHR ''/''" "last ?p \<noteq> CHR ''/''" by simp_all
  have owner: "owner \<noteq> []" using ends(1) ob(1) by (cases owner) auto
  have "repo = [] \<longrightarrow> rest \<noteq> []" using ends(2) ob(1) rp(3) by auto
  moreover have "parse_github_url urlparse_path repo_url = Inr (owner, repo)"
    using a ob(3) rp(1) by (simp add: parse_github_url_def)
  ultimately show "\<exists>owner repo rest.
         parse_github_url urlparse_path repo_url = Inr (owner, repo) \<and>
         strip_char CHR ''/'' path = owner @ ''/'' @ repo @ rest \<and>
         owner \<noteq> [] \<and> CHR ''/'' \<notin> set owner \<and> CHR ''/'' \<notin> set repo \<and>
         (rest = [] \<or> hd rest = CHR ''/'') \<and> (repo = [] \<longrightarrow> rest \<noteq> [])"
    using ob(1,2) rp(2,3,4) owner by (intro exI [of _ owner] exI [of _ repo] exI [of _ rest]) simp
qed

theorem parse_github_url_segments_witness:
  "parse_github_url (\<lambda>url. Inr ''/acme/'') ''https://github.com/acme/'' = Inl (SystemExit 1) \<and>
   parse_github_url (\<lambda>url. Inl ValueError) ''http://[bad'' = Inl (SystemExit 1) \<and>
   (\<exists>owner repo rest.
      parse_github_url (\<lambda>url. Inr ''/acme/widget/releases/'')
         ''https://github.com/acme/widget/releases/'' = Inr (owner, repo) \<and>
      ''acme/widget/releases'' = owner @ ''/'' @ repo @ rest \<and> owner \<noteq> [] \<and>
      CHR ''/'' \<notin> set owner \<and> CHR ''/'' \<notin> set repo)"
proof -
  have s1: "strip_char CHR ''/'' ''/acme/widget/releases/'' = ''acme/widget/releases''"
    by code_simp
  have s2: "strip_char CHR ''/'' ''/acme/'' = ''acme''" by code_simp
  from parse_github_url_segments
         [of "\<lambda>url. Inr ''/acme/widget/releases/''" "''https://github.com/acme/widget/releases/''"
             ValueError "''/acme/widget/releases/''"]
  have "\<exists>owner repo rest.
      parse_github_url (\<lambda>url. Inr ''/acme/widget/releases/'')
         ''https://github.com/acme/widget/releases/'' = Inr (owner, repo) \<and>
      ''acme/widget/releases'' = owner @ ''/'' @ repo @ rest \<and> owner \<noteq> [] \<and>
      CHR ''/'' \<notin> set owner \<and> CHR ''/'' \<notin> set repo"
    unfolding s1 by auto
  moreover from parse_github_url_segments
         [of "\<lambda>url. Inr ''/acme/''" "''https://github.com/acme/''" ValueError "''/acme/''"]
  have "parse_github_url (\<lambda>url. Inr ''/acme/'') ''https://github.com/acme/'' = Inl (SystemExit 1)"
    by (simp add: s2)
  moreover from parse_github_url_segments
         [of "\<lambda>url. Inl ValueError" "''http://[bad''" ValueError]
  have "parse_github_url (\<lambda>url. Inl ValueError) ''http://[bad'' = Inl (SystemExit 1)"
    by simp
  ultimately show ?thesis by simp
qed

theorem parse_github_url_empty_repo_counterexample:
  "parse_github_url (\<lambda>url. Inr ''/acme//widget'') ''https://github.com/acme//widget''
     = Inr (''acme'', [])"
  by code_simp

section \<open>The release fetcher\<close>

lemma fetch_loop_pages:
  assumes "\<And>i. page \<le> i \<Longrightarrow> i < n \<Longrightarrow>
              http_get (releases_url owner repo i 100) headers = Inr (pages i) \<and> pages i \<noteq> []"
    and "page \<le> n"
    and "http_get (releases_url owner repo n 100) headers = Inr []"
  shows "fetch_loop http_get owner repo headers page releases requested
           = Some (requested @ map (\<lambda>i. releases_url owner repo i 100) [page..<Suc n],
                   Inr (releases @ concat (map pages [page..<n])))"
  using assms
proof (induction "n - page" arbitrary: page releases requested)
  case 0
  then have "page = n" by simp
  with 0 show ?case by (subst fetch_loop.simps) simp
next
  case (Suc k)
  then have lt: "page < n" by simp
  with Suc.prems(1) [of page]
  have here: "http_get (releases_url owner repo page 100) headers = Inr (pages page)"
    "pages page \<noteq> []" by simp_all
  have "fetch_loop http_get owner repo headers (page + 1) (releases @ pages page)
          (requested @ [releases_url owner repo page 100])
        = Some ((requested @ [releases_url owner repo page 100])
                  @ map (\<lambda>i. releases_url owner repo i 100) [page + 1..<Suc n],
                Inr ((releases @ pages page) @ concat (map pages [page + 1..<n])))"
  proof (rule Suc.hyps(1))
    show "k = n - (page + 1)" using Suc.hyps(2) by simp
    show "page + 1 \<le> n" using lt by simp
    show "http_get (releases_url owner repo n 100) headers = Inr []" by (rule Suc.prems(3))
    fix i assume "page + 1 \<le> i" "i < n"
    then show "http_get (releases_url owner repo i 100) headers = Inr (pages i) \<and> pages i \<noteq> []"
      using Suc.prems(1) [of i] by simp
  qed
  moreover have "[page..<Suc n] = page # [page + 1..<Suc n]" "[page..<n] = page # [page + 1..<n]"
    using lt by (simp_all add: upt_conv_Cons)
  ultimately show ?case using here by (subst fetch_loop.simps) simp
qed

lemma fetch_loop_returns:
  assumes "fetch_loop http_get owner repo headers page releases requested = Some y"
  shows "\<exists>n\<ge>page.
           (\<forall>i. page \<le> i \<and> i < n \<longrightarrow>
              (\<exists>ps. http_get (releases_url owner repo i 100) headers = Inr ps \<and> ps \<noteq> [])) \<and>
           (case snd y of
              Inr _ \<Rightarrow> http_get (releases_url owner repo n 100) headers = Inr []
            | Inl _ \<Rightarrow> (\<exists>e. http_get (releases_url owner repo n 100) headers = Inl e))"
proof -
  define P where "P = (\<lambda>(http_get :: string \<Rightarrow> (string \<times> string) list \<Rightarrow> exn + jval list)
      owner repo headers page (releases :: jval list) (requested :: string list)
      (y :: string list \<times> (exn + jval list)).
    \<exists>n\<ge>page.
      (\<forall>i. page \<le> i \<and> i < n \<longrightarrow>
         (\<exists>ps. http_get (releases_url owner repo i 100) headers = Inr ps \<and> ps \<noteq> [])) \<and>
      (case snd y of
         Inr _ \<Rightarrow> http_get (releases_url owner repo n 100) headers = Inr []
       | Inl _ \<Rightarrow> (\<exists>e. http_get (releases_url owner repo n 100) headers = Inl e)))"
  have "P http_get owner repo headers page releases requested y"
  proof (rule fetch_loop.raw_induct [where P = P, OF _ assms])
    fix loop http_get owner repo headers page releases requested y
    assume IH: "\<And>h ow re hd pg rl rq z. loop h ow re hd pg rl rq = Some z \<Longrightarrow> P h ow re hd pg rl rq z"
      and body: "(let url = releases_url owner repo page 100
          in case http_get url headers of
               Inl e \<Rightarrow> Some (requested @ [url],
                              Inl (if e = RequestException then SystemExit 1 else e))
             | Inr page_releases \<Rightarrow>
                 if page_releases = [] then Some (requested @ [url], Inr releases)
                 else loop http_get owner repo headers (page + 1) (releases @ page_releases)
                        (requested @ [url])) = Some y"
    show "P http_get owner repo headers page releases requested y"
    proof (cases "http_get (releases_url owner repo page 100) headers")
      case (Inl e)
      with body have "\<exists>x. snd y = Inl x" by (auto simp: Let_def)
      with Inl show ?thesis unfolding P_def by (intro exI [of _ page]) auto
    next
      case (Inr ps)
      show ?thesis
      proof (cases "ps = []")
        case True
        with Inr body have "\<exists>x. snd y = Inr x" by (auto simp: Let_def)
        with Inr True show ?thesis unfolding P_def by (intro exI [of _ page]) auto
      next
        case False
        with Inr body have "loop http_get owner repo headers (page + 1) (releases @ ps)
                              (requested @ [releases_url owner repo page 100]) = Some y"
          by (simp add: Let_def)
        from IH [OF this] obtain n where n: "page + 1 \<le> n"
          "\<forall>i. page + 1 \<le> i \<and> i < n \<longrightarrow>
             (\<exists>ps. http_get (releases_url owner repo i 100) headers = Inr ps \<and> ps \<noteq> [])"
          "case snd y of
             Inr _ \<Rightarrow> http_get (releases_url owner repo n 100) headers = Inr []
           | Inl _ \<Rightarrow> (\<exists>e. http_get (releases_url owner repo n 100) headers = Inl e)"
          unfolding P_def by blast
        have "\<forall>i. page \<le> i \<and> i < n \<longrightarrow>
             (\<exists>ps. http_get (releases_url owner repo i 100) headers = Inr ps \<and> ps \<noteq> [])"
        proof (intro allI impI)
          fix i assume i: "page \<le> i \<and> i < n"
          show "\<exists>ps. http_get (releases_url owner repo i 100) headers = Inr ps \<and> ps \<noteq> []"
          proof (cases "i = page")
            case True
            with Inr False show ?thesis by simp
          next
            case False
            with i n(2) show ?thesis by simp
          qed
        qed
        with n(1,3) show ?thesis unfolding P_def by (intro exI [of _ n]) simp
      qed
    qed
  qed
  then show ?thesis unfolding P_def .
qed

lemma fetch_loop_diverges:
  assumes "\<And>i. page \<le> i \<Longrightarrow>
             \<exists>ps. http_get (releases_url owner repo i 100) headers = Inr ps \<and> ps \<noteq> []"
  shows "fetch_loop http_get owner repo headers page releases requested = None"
proof (rule ccontr)
  assume "fetch_loop http_get owner repo headers page releases requested \<noteq> None"
  then obtain y where "fetch_loop http_get owner repo headers page releases requested = Some y"
    by auto
  from fetch_loop_returns [OF this] obtain n where "page \<le> n"
    "case snd y of
       Inr _ \<Rightarrow> http_get (releases_url owner repo n 100) headers = Inr []
     | Inl _ \<Rightarrow> (\<exists>e. http_get (releases_url owner repo n 100) headers = Inl e)"
    by blast
  with assms [of n] show False by (auto split: sum.splits)
qed

lemma scenario_urls:
  "releases_url ''acme'' ''widget'' 1 100
     = ''https://api.github.com/repos/acme/widget/releases?page=1&per_page=100''"
  "releases_url ''acme'' ''widget'' 2 100
     = ''https://api.github.com/repos/acme/widget/releases?page=2&per_page=100''"
  "releases_url ''acme'' ''widget'' 3 100
     = ''https://api.github.com/repos/acme/widget/releases?page=3&per_page=100''"
  by code_simp+

lemma scenario_api_pages:
  "scenario_api (releases_url ''acme'' ''widget'' 1 100) h = Inr (take 2 scenario_releases)"
  "scenario_api (releases_url ''acme'' ''widget'' 2 100) h = Inr (drop 2 scenario_releases)"
  "scenario_api (releases_url ''acme'' ''widget'' 3 100) h = Inr []"
  unfolding scenario_api_def scenario_urls by simp_all

lemma scenario_fetch:
  "fetch_releases scenario_api ''acme'' ''widget'' None
     = Some ([''https://api.github.com/repos/acme/widget/releases?page=1&per_page=100'',
              ''https://api.github.com/repos/acme/widget/releases?page=2&per_page=100'',
              ''https://api.github.com/repos/acme/widget/releases?page=3&per_page=100''],
             Inr scenario_releases)"
proof -
  let ?pages = "\<lambda>i::nat. if i = 1 then take 2 scenario_releases else drop 2 scenario_releases"
  have upt: "[1..<Suc 3] = [1, 2, 3]" "[1..<3] = [1, 2::nat]" by code_simp+
  have "fetch_loop scenario_api ''acme'' ''widget'' (request_headers None) 1 [] []
          = Some ([] @ map (\<lambda>i. releases_url ''acme'' ''widget'' i 100) [1..<Suc 3],
                  Inr ([] @ concat (map ?pages [1..<3])))"
  proof (rule fetch_loop_pages)
    fix i :: nat assume "1 \<le> i" "i < 3"
    then have "i = 1 \<or> i = 2" by arith
    then show "scenario_api (releases_url ''acme'' ''widget'' i 100) (request_headers None)
                 = Inr (?pages i) \<and> ?pages i \<noteq> []"
      by (elim disjE; hypsubst; simp only: scenario_api_pages; simp add: scenario_releases_def)
  next
    show "(1::nat) \<le> 3" by simp
  next
    show "scenario_api (releases_url ''acme'' ''widget'' 3 100) (request_headers None) = Inr []"
      by (rule scenario_api_pages(3))
  qed
  then show ?thesis
    unfolding upt fetch_releases_def
    by (simp add: scenario_urls scenario_urls(1) [unfolded One_nat_def] scenario_releases_def)
qed

text \<open>
  C6. \<^verbatim>\<open>fetch_releases\<close> requests the pages 1, 2, ... of 100 records each. When page
  \<open>n\<close> is the first empty one and the pages before it are served, it returns after
  requesting exactly the pages 1 to \<open>n\<close>, with the records of the pages before \<open>n\<close> in
  page order. It returns a list only in this way, after an empty page. When every
  page is served and none is empty it never returns: there is no cap on the pages.
\<close>

theorem fetch_releases_pagination:
  "((\<forall>i. 1 \<le> i \<and> i < n \<longrightarrow>
        http_get (releases_url owner repo i 100) (request_headers token) = Inr (pages i) \<and>
        pages i \<noteq> []) \<and>
    1 \<le> n \<and> http_get (releases_url owner repo n 100) (request_headers token) = Inr [] \<longrightarrow>
      fetch_releases http_get owner repo token
        = Some (map (\<lambda>i. releases_url owner repo i 100) [1..<Suc n],
                Inr (concat (map pages [1..<n])))) \<and>
   ((\<forall>i\<ge>1. \<exists>ps. http_get (releases_url owner repo i 100) (request_headers token) = Inr ps \<and>
               ps \<noteq> []) \<longrightarrow>
      fetch_releases http_get owner repo token = None) \<and>
   (fetch_releases http_get owner repo token = Some (requested, Inr releases) \<longrightarrow>
      (\<exists>m\<ge>1. http_get (releases_url owner repo m 100) (request_headers token) = Inr [] \<and>
         (\<forall>i. 1 \<le> i \<and> i < m \<longrightarrow>
            (\<exists>ps. http_get (releases_url owner repo i 100) (request_headers token) = Inr ps \<and>
                  ps \<noteq> []))))"
proof (intro conjI impI)
  assume a: "(\<forall>i. 1 \<le> i \<and> i < n \<longrightarrow>
        http_get (releases_url owner repo i 100) (request_headers token) = Inr (pages i) \<and>
        pages i \<noteq> []) \<and>
    1 \<le> n \<and> http_get (releases_url owner repo n 100) (request_headers token) = Inr []"
  then show "fetch_releases http_get owner repo token
        = Some (map (\<lambda>i. releases_url owner repo i 100) [1..<Suc n],
                Inr (concat (map pages [1..<n])))"
    unfolding fetch_releases_def
    using fetch_loop_pages [of 1 n http_get owner repo "request_headers token" pages "[]" "[]"]
    by simp
next
  assume "\<forall>i\<ge>1. \<exists>ps. http_get (releases_url owner repo i 100) (request_headers token) = Inr ps \<and>
               ps \<noteq> []"
  then show "fetch_releases http_get owner repo token = None"
    unfolding fetch_releases_def by (intro fetch_loop_diverges) simp
next
  assume "fetch_releases http_get owner repo token = Some (requested, Inr releases)"
  from fetch_loop_returns [OF this [unfolded fetch_releases_def]]
  show "\<exists>m\<ge>1. http_get (releases_url owner repo m 100) (request_headers token) = Inr [] \<and>
         (\<forall>i. 1 \<le> i \<and> i < m \<longrightarrow>
            (\<exists>ps. http_get (releases_url owner repo i 100) (request_headers token) = Inr ps \<and>
                  ps \<noteq> []))"
    by auto
qed

theorem fetch_releases_pagination_witness:
  "fetch_releases scenario_api ''acme'' ''widget'' None
     = Some ([''https://api.github.com/repos/acme/widget/releases?page=1&per_page=100'',
              ''https://api.github.com/repos/acme/widget/releases?page=2&per_page=100'',
              ''https://api.github.com/repos/acme/widget/releases?page=3&per_page=100''],
             Inr scenario_releases) \<and>
   fetch_releases endless_api ''acme'' ''widget'' None = None"
proof -
  let ?pages = "\<lambda>i::nat. if i = 1 then take 2 scenario_releases else drop 2 scenario_releases"
  have pages: "\<forall>i. 1 \<le> i \<and> i < 3 \<longrightarrow>
      scenario_api (releases_url ''acme'' ''widget'' i 100) (request_headers None) = Inr (?pages i) \<and>
      ?pages i \<noteq> []"
  proof (intro allI impI)
    fix i :: nat assume "1 \<le> i \<and> i < 3"
    then have "i = 1 \<or> i = 2" by arith
    then show "scenario_api (releases_url ''acme'' ''widget'' i 100) (request_headers None)
                 = Inr (?pages i) \<and> ?pages i \<noteq> []"
      by (elim disjE; hypsubst; simp only: scenario_api_pages; simp add: scenario_releases_def)
  qed
  have upt: "[1..<Suc 3] = [1, 2, 3]" "[1..<3] = [1, 2::nat]" by code_simp+
  have le: "(1::nat) \<le> 3" by simp
  have last: "scenario_api (releases_url ''acme'' ''widget'' 3 100) (request_headers None) = Inr []"
    by (rule scenario_api_pages(3))
  have "fetch_releases scenario_api ''acme'' ''widget'' None
          = Some (map (\<lambda>i. releases_url ''acme'' ''widget'' i 100) [1..<Suc 3],
                  Inr (concat (map ?pages [1..<3])))"
    by (rule fetch_releases_pagination
               [of 3 scenario_api "''acme''" "''widget''" None ?pages, THEN conjunct1, THEN mp])
       (intro conjI pages le last)
  then have a: "fetch_releases scenario_api ''acme'' ''widget'' None
     = Some ([''https://api.github.com/repos/acme/widget/releases?page=1&per_page=100'',
              ''https://api.github.com/repos/acme/widget/releases?page=2&per_page=100'',
              ''https://api.github.com/repos/acme/widget/releases?page=3&per_page=100''],
             Inr scenario_releases)"
    unfolding upt by (simp add: scenario_urls scenario_urls(1) [unfolded One_nat_def] scenario_releases_def)
  from fetch_releases_pagination [of 1 endless_api "''acme''" "''widget''" None]
  have "fetch_releases endless_api ''acme'' ''widget'' None = None"
    by (simp add: endless_api_def)
  with a show ?thesis by simp
qed

section \<open>The writer\<close>

lemma isoformat_no_newline: "CHR 0x0A \<notin> set (isoformat d)"
proof -
  have "\<And>w n. CHR 0x0A \<notin> set (zero_pad w n)"
    using py_str_digits by (auto simp: zero_pad_def digits_def)
  then show ?thesis by (simp add: isoformat_def)
qed

lemma count_lines:
  "\<forall>e\<in>set entries. CHR 0x0A \<notin> set (fst e)
   \<Longrightarrow> length (filter (\<lambda>ch. ch = CHR 0x0A) (concat (map entry_line entries))) = length entries"
proof (induction entries)
  case Nil
  then show ?case by simp
next
  case (Cons e es)
  have "filter (\<lambda>ch. ch = CHR 0x0A) (fst e) = []"
    using Cons.prems by (auto simp: filter_empty_conv)
  moreover have "filter (\<lambda>ch. ch = CHR 0x0A) (isoformat (snd e)) = []"
    using isoformat_no_newline [of "snd e"] by (auto simp: filter_empty_conv)
  ultimately show ?case using Cons by (simp add: entry_line_def entry_text_def)
qed

lemma entry_line_fun:
  "entry_line = (\<lambda>e. fst e @ '', '' @ isoformat (snd e) @ [CHR 0x0A])"
  by (rule ext) (simp add: entry_line_def entry_text_def)

text \<open>
  C8. When the path can be opened, \<^verbatim>\<open>save_to_file\<close> replaces whatever the file held by
  one line per entry, the tag, a comma and a blank, the date and a newline, and nothing
  else; other files are untouched; for no entries the file exists and is empty. A
  calendar date is rendered as four digits, a hyphen, two digits, a hyphen and two
  digits that read back as its year, month and day. When no tag holds a newline the
  file has as many newlines as there are entries.
\<close>

theorem save_to_file_lines:
  "(\<not> refuses fs output_file \<longrightarrow>
      (\<exists>fs'. save_to_file entries output_file fs = Inr fs' \<and>
         files fs' output_file
           = Some (concat (map (\<lambda>e. fst e @ '', '' @ isoformat (snd e) @ [CHR 0x0A]) entries)) \<and>
         (\<forall>path. path \<noteq> output_file \<longrightarrow> files fs' path = files fs path)) \<and>
      (\<exists>fs'. save_to_file [] output_file fs = Inr fs' \<and> files fs' output_file = Some [])) \<and>
   (new_date y m d = Inr dt \<longrightarrow>
      isoformat dt = zero_pad 4 y @ ''-'' @ zero_pad 2 m @ ''-'' @ zero_pad 2 d \<and>
      length (zero_pad 4 y) = 4 \<and> length (zero_pad 2 m) = 2 \<and> length (zero_pad 2 d) = 2 \<and>
      set (zero_pad 4 y @ zero_pad 2 m @ zero_pad 2 d) \<subseteq> set digits \<and>
      py_int (zero_pad 4 y) = y \<and> py_int (zero_pad 2 m) = m \<and> py_int (zero_pad 2 d) = d) \<and>
   ((\<forall>e\<in>set entries. CHR 0x0A \<notin> set (fst e)) \<longrightarrow>
      length (filter (\<lambda>ch. ch = CHR 0x0A)
                (concat (map (\<lambda>e. fst e @ '', '' @ isoformat (snd e) @ [CHR 0x0A]) entries)))
        = length entries)"
proof (intro conjI impI)
  assume "\<not> refuses fs output_file"
  then show "\<exists>fs'. save_to_file entries output_file fs = Inr fs' \<and>
         files fs' output_file
           = Some (concat (map (\<lambda>e. fst e @ '', '' @ isoformat (snd e) @ [CHR 0x0A]) entries)) \<and>
         (\<forall>path. path \<noteq> output_file \<longrightarrow> files fs' path = files fs path)"
    by (simp add: save_to_file_def entry_line_fun)
next
  assume "\<not> refuses fs output_file"
  then show "\<exists>fs'. save_to_file [] output_file fs = Inr fs' \<and> files fs' output_file = Some []"
    by (simp add: save_to_file_def)
next
  assume nd: "new_date y m d = Inr dt"
  note b = new_date_bounds [OF nd]
  from b show "isoformat dt = zero_pad 4 y @ ''-'' @ zero_pad 2 m @ ''-'' @ zero_pad 2 d"
    by (simp add: isoformat_def)
  from b show "length (zero_pad 4 y) = 4" "length (zero_pad 2 m) = 2" "length (zero_pad 2 d) = 2"
    by (simp_all add: zero_pad_field)
  from b show "set (zero_pad 4 y @ zero_pad 2 m @ zero_pad 2 d) \<subseteq> set digits"
    using zero_pad_field(2) [of 4 y] zero_pad_field(2) [of 2 m] zero_pad_field(2) [of 2 d]
    by simp
  from b show "py_int (zero_pad 4 y) = y" "py_int (zero_pad 2 m) = m" "py_int (zero_pad 2 d) = d"
    by (simp_all add: zero_pad_field)
next
  assume "\<forall>e\<in>set entries. CHR 0x0A \<notin> set (fst e)"
  from count_lines [OF this]
  show "length (filter (\<lambda>ch. ch = CHR 0x0A)
                (concat (map (\<lambda>e. fst e @ '', '' @ isoformat (snd e) @ [CHR 0x0A]) entries)))
        = length entries"
    by (simp add: entry_line_fun)
qed

theorem save_to_file_lines_witness:
  "(\<exists>fs'. save_to_file [(''v1.2.0'', \<lparr>year = 2024, month = 2, day = 1\<rparr>),
                         (''v1.3.0-beta'', \<lparr>year = 2024, month = 3, day = 1\<rparr>)]
             ''releases.txt''
             \<lparr>files = (\<lambda>path. Some ''old text''), refuses = (\<lambda>path. path = [])\<rparr> = Inr fs' \<and>
          files fs' ''releases.txt''
            = Some (''v1.2.0, 2024-02-01'' @ [CHR 0x0A] @ ''v1.3.0-beta, 2024-03-01'' @ [CHR 0x0A]) \<and>
          files fs' ''other.txt'' = Some ''old text'') \<and>
   isoformat \<lparr>year = 2024, month = 2, day = 1\<rparr> = ''2024-02-01''"
proof -
  let ?fs = "\<lparr>files = (\<lambda>path. Some ''old text''), refuses = (\<lambda>path. path = [])\<rparr>"
  let ?d1 = "\<lparr>year = 2024, month = 2, day = 1\<rparr>"
  let ?d2 = "\<lparr>year = 2024, month = 3, day = 1\<rparr>"
  let ?entries = "[(''v1.2.0'', ?d1), (''v1.3.0-beta'', ?d2)]"
  have iso: "isoformat ?d1 = ''2024-02-01''" "isoformat ?d2 = ''2024-03-01''" by code_simp+
  have nd: "new_date 2024 2 1 = Inr ?d1" by code_simp
  have ok: "\<not> refuses ?fs ''releases.txt''" by simp
  have ne: "''other.txt'' \<noteq> ''releases.txt''" by simp
  from save_to_file_lines [of ?fs "''releases.txt''" ?entries 2024 2 1 ?d1]
  obtain fs' where "save_to_file ?entries ''releases.txt'' ?fs = Inr fs'"
    "files fs' ''releases.txt''
       = Some (concat (map (\<lambda>e. fst e @ '', '' @ isoformat (snd e) @ [CHR 0x0A]) ?entries))"
    "\<forall>path. path \<noteq> ''releases.txt'' \<longrightarrow> files fs' path = files ?fs path"
    using ok by blast
  then show ?thesis using iso ne by (intro conjI exI [of _ fs']) simp_all
qed

section \<open>The orchestrator\<close>

lemma choose_output_file_empty:
  "choose_output_file (Some []) owner repo package_name
     = choose_output_file None owner repo package_name"
  by (simp add: choose_output_file_def)

lemma default_output_file_nonempty: "default_output_file owner repo package_name \<noteq> []"
  by (simp add: default_output_file_def)

text \<open>
  C10. A run with the output option given as the empty string is the same as a run
  without the option. The file name chosen is then
  \<^verbatim>\<open><owner>_<repo>_releases.txt\<close> without a package name (or with an empty one) and
  \<^verbatim>\<open><owner>_<repo>_<package>_releases.txt\<close> with one; when the run gets as far as
  writing, the lines go to that file and the empty path is left as it was.
\<close>

theorem empty_output_is_default:
  "main w (a\<lparr>arg_output := Some []\<rparr>) = main w (a\<lparr>arg_output := None\<rparr>) \<and>
   choose_output_file (Some []) owner repo package_name
     = choose_output_file None owner repo package_name \<and>
   choose_output_file None owner repo None = owner @ ''_'' @ repo @ ''_releases.txt'' \<and>
   (p \<noteq> [] \<longrightarrow>
      choose_output_file None owner repo (Some p)
        = owner @ ''_'' @ repo @ ''_'' @ p @ ''_releases.txt'') \<and>
   choose_output_file None owner repo (Some []) = owner @ ''_'' @ repo @ ''_releases.txt'' \<and>
   (strptime_date (arg_start_date a) = Inr start \<and>
    parse_github_url (w_urlparse w) (arg_repo_url a) = Inr (owner, repo) \<and>
    fetch_releases (w_http w) owner repo (arg_token a) = Some (requested, Inr releases) \<and>
    \<not> refuses (w_fs w) (choose_output_file None owner repo (arg_package_name a)) \<longrightarrow>
      (\<exists>out filtered.
         main w (a\<lparr>arg_output := Some []\<rparr>) = Some out \<and> exit_code out = 0 \<and>
         filter_releases releases start (arg_package_name a) (arg_include_prereleases a)
           = Inr filtered \<and>
         stdout out = map entry_text filtered \<and>
         files (fs_after out) (choose_output_file None owner repo (arg_package_name a))
           = Some (concat (map entry_line filtered)) \<and>
         files (fs_after out) [] = files (w_fs w) []))"
proof (intro conjI impI)
  show "main w (a\<lparr>arg_output := Some []\<rparr>) = main w (a\<lparr>arg_output := None\<rparr>)"
    by (simp add: main_def choose_output_file_empty
             cong: sum.case_cong option.case_cong prod.case_cong)
  show "choose_output_file (Some []) owner repo package_name
          = choose_output_file None owner repo package_name"
    by (rule choose_output_file_empty)
  show "choose_output_file None owner repo None = owner @ ''_'' @ repo @ ''_releases.txt''"
    by (simp add: choose_output_file_def default_output_file_def)
  show "choose_output_file None owner repo (Some p)
          = owner @ ''_'' @ repo @ ''_'' @ p @ ''_releases.txt''" if "p \<noteq> []"
    using that by (simp add: choose_output_file_def default_output_file_def)
  show "choose_output_file None owner repo (Some []) = owner @ ''_'' @ repo @ ''_releases.txt''"
    by (simp add: choose_output_file_def default_output_file_def)
next
  let ?path = "choose_output_file None owner repo (arg_package_name a)"
  assume h: "strptime_date (arg_start_date a) = Inr start \<and>
    parse_github_url (w_urlparse w) (arg_repo_url a) = Inr (owner, repo) \<and>
    fetch_releases (w_http w) owner repo (arg_token a) = Some (requested, Inr releases) \<and>
    \<not> refuses (w_fs w) ?path"
  obtain filtered where f: "filter_releases releases start (arg_package_name a)
      (arg_include_prereleases a) = Inr filtered"
    by (simp add: filter_releases_selected)
  have ne: "?path \<noteq> []"
    by (simp add: choose_output_file_def default_output_file_nonempty)
  let ?out = "\<lparr>stdout = map entry_text filtered,
               fs_after = (w_fs w)\<lparr>files := (files (w_fs w))(?path \<mapsto> concat (map entry_line filtered))\<rparr>,
               exit_code = 0\<rparr>"
  have "main w (a\<lparr>arg_output := Some []\<rparr>) = Some ?out"
    using h f by (simp add: main_def choose_output_file_empty save_to_file_def
                       cong: sum.case_cong option.case_cong prod.case_cong)
  then show "\<exists>out filtered.
         main w (a\<lparr>arg_output := Some []\<rparr>) = Some out \<and> exit_code out = 0 \<and>
         filter_releases releases start (arg_package_name a) (arg_include_prereleases a)
           = Inr filtered \<and>
         stdout out = map entry_text filtered \<and>
         files (fs_after out) ?path = Some (concat (map entry_line filtered)) \<and>
         files (fs_after out) [] = files (w_fs w) []"
    using f ne by (intro exI [of _ ?out] exI [of _ filtered]) simp
qed

theorem empty_output_is_default_witness:
  "\<exists>out. main scenario_world scenario_args = Some out \<and> exit_code out = 0 \<and>
     stdout out = [''v1.2.0, 2024-02-01''] \<and>
     files (fs_after out) ''acme_widget_releases.txt''
       = Some (''v1.2.0, 2024-02-01'' @ [CHR 0x0A]) \<and>
     files (fs_after out) [] = None"
proof -
  let ?start = "\<lparr>year = 2024, month = 1, day = 1\<rparr>"
  have a: "scenario_args\<lparr>arg_output := Some []\<rparr> = scenario_args"
    by (simp add: scenario_args_def)
  have sd: "strptime_date (arg_start_date scenario_args) = Inr ?start" by code_simp
  have url: "parse_github_url (w_urlparse scenario_world) (arg_repo_url scenario_args)
               = Inr (''acme'', ''widget'')" by code_simp
  have fetch: "fetch_releases (w_http scenario_world) ''acme'' ''widget'' (arg_token scenario_args)
      = Some ([''https://api.github.com/repos/acme/widget/releases?page=1&per_page=100'',
              ''https://api.github.com/repos/acme/widget/releases?page=2&per_page=100'',
              ''https://api.github.com/repos/acme/widget/releases?page=3&per_page=100''],
             Inr scenario_releases)"
    using scenario_fetch by (simp add: scenario_world_def scenario_args_def)
  have path: "choose_output_file None ''acme'' ''widget'' (arg_package_name scenario_args)
                = ''acme_widget_releases.txt''" by code_simp
  have ok: "\<not> refuses (w_fs scenario_world) ''acme_widget_releases.txt''"
    by (simp add: scenario_world_def)
  have flt: "filter_releases scenario_releases ?start (arg_package_name scenario_args)
               (arg_include_prereleases scenario_args)
             = Inr [(''v1.2.0'', \<lparr>year = 2024, month = 2, day = 1\<rparr>)]"
    using scenario_filter by (simp add: scenario_args_def)
  have shown: "entry_text (''v1.2.0'', \<lparr>year = 2024, month = 2, day = 1\<rparr>) = ''v1.2.0, 2024-02-01''"
    by code_simp
  have none: "files (w_fs scenario_world) [] = None" by (simp add: scenario_world_def)
  from empty_output_is_default
         [of scenario_world scenario_args "''acme''" "''widget''" None "''x''" ?start _ scenario_releases]
  obtain out filtered where
    "main scenario_world scenario_args = Some out" "exit_code out = 0"
    "filter_releases scenario_releases ?start (arg_package_name scenario_args)
       (arg_include_prereleases scenario_args) = Inr filtered"
    "stdout out = map entry_text filtered"
    "files (fs_after out) ''acme_widget_releases.txt'' = Some (concat (map entry_line filtered))"
    "files (fs_after out) [] = files (w_fs scenario_world) []"
    unfolding a path using sd url fetch ok by blast
  then show ?thesis using flt shown none
    by (intro exI [of _ out]) (simp add: entry_line_def)
qed

end
